theory Spec2Isabelle
  imports Main "HOL-Library.AList"
begin

section \<open>The document tree (BasicYamlParser.hpp, lines 30-57)\<close>

datatype YamlNodeType = Scalar | Sequence | Mapping

datatype ScalarStyle = Plain | Literal | Folded

text \<open>
  \<^verbatim>\<open>struct YamlNode\<close>. The \<^verbatim>\<open>std::map<std::string, YamlNode>\<close> is an association list
  with at most one entry per key: \<open>map_of\<close> is \<^verbatim>\<open>find\<close>, \<open>AList.update\<close> is
  \<^verbatim>\<open>mapping[key] = v\<close>. The order of the entries carries no meaning.
\<close>

datatype YamlNode = YamlNode
  (type: YamlNodeType)
  (style: ScalarStyle)
  (scalarValue: string)
  (sequence: "YamlNode list")
  (mapping: "(string \<times> YamlNode) list")

text \<open>The constructor \<^verbatim>\<open>YamlNode(YamlNodeType t = Scalar)\<close>.\<close>

definition newNode :: "YamlNodeType \<Rightarrow> YamlNode" where
  "newNode t = YamlNode t Plain [] [] []"

text \<open>
  Every \<^verbatim>\<open>throw YamlError(...)\<close> of the source is one message kind; the text that the
  source appends to a message is left out, the line and the column (-1 when not given) are
  kept. \<open>NullView\<close> stands for reading through a \<^verbatim>\<open>NodeView\<close> whose pointer is null, which the
  source leaves undefined.
\<close>

datatype ErrorKind =
    CannotOpenFile
  | NotAScalar
  | NotAMapping
  | NotASequence
  | TabsInIndentation
  | FlowMissingColon
  | FlowEmptyKey
  | InvalidIndentation
  | UnexpectedIndentation
  | MissingColon
  | EmptyKey
  | AmbiguousColon
  | NullView

datatype YamlError = YamlError (kind: ErrorKind) (line: int) (col: int)

section \<open>Characters and strings\<close>

abbreviation NUL :: char where "NUL \<equiv> CHR 0x00"
abbreviation TAB :: char where "TAB \<equiv> CHR 0x09"
abbreviation NL :: char where "NL \<equiv> CHR 0x0A"
abbreviation SP :: char where "SP \<equiv> CHR 0x20"
abbreviation DQUOTE :: char where "DQUOTE \<equiv> CHR 0x22"
abbreviation SQUOTE :: char where "SQUOTE \<equiv> CHR 0x27"
abbreviation BSLASH :: char where "BSLASH \<equiv> CHR 0x5C"

text \<open>\<^verbatim>\<open>std::tolower\<close>, \<^verbatim>\<open>std::isdigit\<close> and \<^verbatim>\<open>std::isspace\<close> in the "C" locale.\<close>

definition tolower :: "char \<Rightarrow> char" where
  "tolower c =
     (case map_of (zip ''ABCDEFGHIJKLMNOPQRSTUVWXYZ'' ''abcdefghijklmnopqrstuvwxyz'') c of
        Some l \<Rightarrow> l
      | None \<Rightarrow> c)"

definition isdigit :: "char \<Rightarrow> bool" where
  "isdigit c = (c \<in> set ''0123456789'')"

definition isspace :: "char \<Rightarrow> bool" where
  "isspace c = (c \<in> set [SP, TAB, NL, CHR 0x0B, CHR 0x0C, CHR 0x0D])"

text \<open>The value of a decimal digit, \<^verbatim>\<open>c - '0'\<close>.\<close>

definition digit_val :: "char \<Rightarrow> nat" where
  "digit_val c = of_char c - 48"

text \<open>
  \<^verbatim>\<open>iequals\<close> (lines 190-195): \<^verbatim>\<open>std::equal\<close> over both ranges, which asks for equal lengths and
  the predicate on every pair.
\<close>

definition iequals :: "string \<Rightarrow> string \<Rightarrow> bool" where
  "iequals a b = list_all2 (\<lambda>c1 c2. tolower c1 = tolower c2) a b"

text \<open>
  \<^verbatim>\<open>find\<close>, \<^verbatim>\<open>find_first_not_of\<close> and \<^verbatim>\<open>find_last_not_of\<close> of \<^verbatim>\<open>std::string\<close>; \<open>None\<close> is
  \<^verbatim>\<open>npos\<close>.
\<close>

fun find_if :: "(char \<Rightarrow> bool) \<Rightarrow> string \<Rightarrow> nat option" where
  "find_if p [] = None"
| "find_if p (c # cs) =
     (if p c then Some 0 else (case find_if p cs of None \<Rightarrow> None | Some i \<Rightarrow> Some (Suc i)))"

definition find_char :: "char \<Rightarrow> string \<Rightarrow> nat option" where
  "find_char ch s = find_if (\<lambda>c. c = ch) s"

definition find_first_not_of :: "string \<Rightarrow> string \<Rightarrow> nat option" where
  "find_first_not_of chars s = find_if (\<lambda>c. c \<notin> set chars) s"

definition find_last_not_of :: "string \<Rightarrow> string \<Rightarrow> nat option" where
  "find_last_not_of chars s =
     (case find_if (\<lambda>c. c \<notin> set chars) (rev s) of
        None \<Rightarrow> None
      | Some i \<Rightarrow> Some (length s - 1 - i))"

text \<open>\<^verbatim>\<open>s.find(": ")\<close> finds the substring; only whether it occurs is used.\<close>

fun contains_str :: "string \<Rightarrow> string \<Rightarrow> bool" where
  "contains_str pat [] = (pat = [])"
| "contains_str pat (c # cs) = (take (length pat) (c # cs) = pat \<or> contains_str pat cs)"

text \<open>
  \<^verbatim>\<open>s.substr(pos, n)\<close> and \<^verbatim>\<open>s.substr(pos)\<close>. Every call of the source has
  \<open>pos \<le> length s\<close>, where no \<^verbatim>\<open>out_of_range\<close> is thrown.
\<close>

definition substr :: "string \<Rightarrow> nat \<Rightarrow> nat \<Rightarrow> string" where
  "substr s pos n = take n (drop pos s)"

definition substr_from :: "string \<Rightarrow> nat \<Rightarrow> string" where
  "substr_from s pos = drop pos s"

text \<open>\<^verbatim>\<open>s[0]\<close>, which is the terminating null character on an empty string.\<close>

definition front :: "string \<Rightarrow> char" where
  "front s = (case s of [] \<Rightarrow> NUL | c # _ \<Rightarrow> c)"

text \<open>\<^verbatim>\<open>trim\<close> (lines 469-476), \<^verbatim>\<open>rtrim\<close> (481-487) and \<^verbatim>\<open>ltrim\<close> (492-497).\<close>

definition trim :: "string \<Rightarrow> string" where
  "trim str =
     (case find_first_not_of [SP, TAB] str of
        None \<Rightarrow> []
      | Some firstPos \<Rightarrow>
          (case find_last_not_of [SP, TAB] str of
             None \<Rightarrow> []
           | Some lastPos \<Rightarrow> substr str firstPos (lastPos - firstPos + 1)))"

definition rtrim :: "string \<Rightarrow> string" where
  "rtrim str =
     (case find_last_not_of [SP, TAB] str of
        None \<Rightarrow> []
      | Some lastPos \<Rightarrow> substr str 0 (lastPos + 1))"

definition ltrim :: "string \<Rightarrow> nat \<Rightarrow> string" where
  "ltrim str count = (if length str \<le> count then [] else substr_from str count)"

section \<open>The scalar classifier (lines 153-180)\<close>

text \<open>
  \<^verbatim>\<open>std::stol(val, &pos)\<close>, base 10, with \<^verbatim>\<open>long\<close> of 64 bits: leading white space, an optional
  sign, then digits. \<open>None\<close> is either exception (\<^verbatim>\<open>invalid_argument\<close> when there is no digit,
  \<^verbatim>\<open>out_of_range\<close> when the value does not fit); otherwise the value and the number of
  characters read.
\<close>

definition decimal :: "string \<Rightarrow> int" where
  "decimal ds = foldl (\<lambda>acc c. acc * 10 + int (digit_val c)) 0 ds"

definition LONG_MAX :: int where
  "LONG_MAX = 9223372036854775807"

definition LONG_MIN :: int where
  "LONG_MIN = - 9223372036854775808"

definition stol :: "string \<Rightarrow> (int \<times> nat) option" where
  "stol val =
     (let ws = takeWhile isspace val;
          r = drop (length ws) val;
          signLen = (if front r = CHR ''-'' \<or> front r = CHR ''+'' then 1 else 0);
          ds = takeWhile isdigit (drop signLen r);
          v = (if front r = CHR ''-'' then - decimal ds else decimal ds)
      in if ds = [] then None
         else if v < LONG_MIN \<or> LONG_MAX < v then None
         else Some (v, length ws + signLen + length ds))"

text \<open>
  The C string a \<^verbatim>\<open>std::string\<close> hands to \<^verbatim>\<open>strtod\<close>: its characters up to the first null
  character.
\<close>

definition c_str :: "string \<Rightarrow> string" where
  "c_str s = takeWhile (\<lambda>c. c \<noteq> NUL) s"

text \<open>
  \<^verbatim>\<open>strtod\<close> is a parameter of the model: for a C string it gives the value, the number of
  characters converted (0 when there is no conversion) and whether \<^verbatim>\<open>errno\<close> is \<^verbatim>\<open>ERANGE\<close>
  afterwards. \<^verbatim>\<open>std::stod\<close> throws \<^verbatim>\<open>invalid_argument\<close> when nothing was converted and
  \<^verbatim>\<open>out_of_range\<close> on \<^verbatim>\<open>ERANGE\<close>.
\<close>

type_synonym 'd strtod_fn = "string \<Rightarrow> 'd \<times> nat \<times> bool"

definition stod :: "'d strtod_fn \<Rightarrow> string \<Rightarrow> ('d \<times> nat) option" where
  "stod strtod val =
     (case strtod (c_str val) of
        (d, n, erange) \<Rightarrow> if n = 0 then None else if erange then None else Some (d, n))"

text \<open>The \<^verbatim>\<open>std::variant<std::monostate, std::string, long, double, bool>\<close>.\<close>

datatype 'd Deduced = Monostate | String string | Long int | Double 'd | Bool bool

definition deduceType :: "'d strtod_fn \<Rightarrow> string \<Rightarrow> 'd Deduced" where
  "deduceType strtod val =
     (case (case stol val of
              Some (l, pos) \<Rightarrow> if pos = length val then Some l else None
            | None \<Rightarrow> None) of
        Some l \<Rightarrow> Long l
      | None \<Rightarrow>
     (case (case stod strtod val of
              Some (d, pos) \<Rightarrow> if pos = length val then Some d else None
            | None \<Rightarrow> None) of
        Some d \<Rightarrow> Double d
      | None \<Rightarrow>
          if iequals val ''Yes'' \<or> iequals val ''True'' \<or> iequals val ''on'' \<or> iequals val ''true''
          then Bool True
          else if iequals val ''No'' \<or> iequals val ''False'' \<or> iequals val ''off''
                  \<or> iequals val ''false''
          then Bool False
          else if iequals val ''null'' \<or> val = ''~'' \<or> val = []
          then Monostate
          else String val))"

section \<open>Predicates, throwing accessors and try-conversions (lines 198-264)\<close>

definition isScalar :: "YamlNode \<Rightarrow> bool" where
  "isScalar n = (type n = Scalar)"

definition isMap :: "YamlNode \<Rightarrow> bool" where
  "isMap n = (type n = Mapping)"

definition isSeq :: "YamlNode \<Rightarrow> bool" where
  "isSeq n = (type n = Sequence)"

definition asString :: "YamlNode \<Rightarrow> YamlError + string" where
  "asString n = (if \<not> isScalar n then Inl (YamlError NotAScalar (-1) (-1)) else Inr (scalarValue n))"

definition asMap :: "YamlNode \<Rightarrow> YamlError + (string \<times> YamlNode) list" where
  "asMap n = (if \<not> isMap n then Inl (YamlError NotAMapping (-1) (-1)) else Inr (mapping n))"

definition asSeq :: "YamlNode \<Rightarrow> YamlError + YamlNode list" where
  "asSeq n = (if \<not> isSeq n then Inl (YamlError NotASequence (-1) (-1)) else Inr (sequence n))"

definition toBool :: "YamlNode \<Rightarrow> bool option" where
  "toBool n =
     (if \<not> isScalar n then None
      else let val = scalarValue n in
        if iequals val ''null'' \<or> val = ''~'' \<or> val = [] then None
        else if iequals val ''true'' \<or> iequals val ''yes'' \<or> iequals val ''on'' then Some True
        else if iequals val ''false'' \<or> iequals val ''no'' \<or> iequals val ''off'' then Some False
        else None)"

text \<open>
  \<^verbatim>\<open>std::from_chars(b, e, v)\<close> for \<^verbatim>\<open>long long\<close>, base 10: an optional minus sign and digits,
  no white space and no plus sign. The result is the value (\<open>None\<close> when the error code is
  not \<^verbatim>\<open>std::errc{}\<close>) and the number of characters up to the returned pointer.
\<close>

definition LLONG_MAX :: int where
  "LLONG_MAX = 9223372036854775807"

definition LLONG_MIN :: int where
  "LLONG_MIN = - 9223372036854775808"

definition from_chars :: "string \<Rightarrow> int option \<times> nat" where
  "from_chars s =
     (let signLen = (if front s = CHR ''-'' then 1 else 0);
          ds = takeWhile isdigit (drop signLen s);
          v = (if front s = CHR ''-'' then - decimal ds else decimal ds)
      in if ds = [] then (None, 0)
         else if v < LLONG_MIN \<or> LLONG_MAX < v then (None, signLen + length ds)
         else (Some v, signLen + length ds))"

definition toInt :: "YamlNode \<Rightarrow> int option" where
  "toInt n =
     (if \<not> isScalar n then None
      else let s = scalarValue n in
        if iequals s ''null'' \<or> s = ''~'' \<or> s = [] then None
        else (case from_chars s of
                (Some v, ptr) \<Rightarrow> if ptr = length s then Some v else None
              | (None, ptr) \<Rightarrow> None))"

text \<open>
  \<^verbatim>\<open>toDouble\<close> calls \<^verbatim>\<open>strtod\<close> on \<^verbatim>\<open>s.c_str()\<close> and asks for \<^verbatim>\<open>errno == 0\<close> and for the end
  pointer to stand on the terminating null character.
\<close>

definition toDouble :: "'d strtod_fn \<Rightarrow> YamlNode \<Rightarrow> 'd option" where
  "toDouble strtod n =
     (if \<not> isScalar n then None
      else let s = scalarValue n in
        if iequals s ''null'' \<or> s = ''~'' \<or> s = [] then None
        else (case strtod (c_str s) of
                (d, endp, erange) \<Rightarrow>
                  if \<not> erange \<and> endp = length (c_str s) then Some d else None))"

section \<open>The node view and path lookup (lines 269-364)\<close>

text \<open>
  A \<^verbatim>\<open>NodeView\<close> holds a pointer to a node of a finished tree, or null: a
  \<open>YamlNode option\<close>. \<^verbatim>\<open>operator bool\<close> is \<open>v \<noteq> None\<close>.
\<close>

type_synonym NodeView = "YamlNode option"

definition is_scalar :: "NodeView \<Rightarrow> bool" where
  "is_scalar v = (case v of None \<Rightarrow> False | Some n \<Rightarrow> type n = Scalar)"

definition is_map :: "NodeView \<Rightarrow> bool" where
  "is_map v = (case v of None \<Rightarrow> False | Some n \<Rightarrow> type n = Mapping)"

definition is_seq :: "NodeView \<Rightarrow> bool" where
  "is_seq v = (case v of None \<Rightarrow> False | Some n \<Rightarrow> type n = Sequence)"

text \<open>The members that read through the pointer without testing it.\<close>

definition as_str :: "NodeView \<Rightarrow> YamlError + string" where
  "as_str v = (case v of None \<Rightarrow> Inl (YamlError NullView (-1) (-1)) | Some n \<Rightarrow> asString n)"

definition to_bool :: "NodeView \<Rightarrow> YamlError + bool option" where
  "to_bool v = (case v of None \<Rightarrow> Inl (YamlError NullView (-1) (-1)) | Some n \<Rightarrow> Inr (toBool n))"

definition to_int :: "NodeView \<Rightarrow> YamlError + int option" where
  "to_int v = (case v of None \<Rightarrow> Inl (YamlError NullView (-1) (-1)) | Some n \<Rightarrow> Inr (toInt n))"

definition to_double :: "'d strtod_fn \<Rightarrow> NodeView \<Rightarrow> YamlError + 'd option" where
  "to_double strtod v =
     (case v of None \<Rightarrow> Inl (YamlError NullView (-1) (-1)) | Some n \<Rightarrow> Inr (toDouble strtod n))"

text \<open>\<^verbatim>\<open>operator[](const std::string &key)\<close> and \<^verbatim>\<open>operator[](size_t idx)\<close>.\<close>

definition index_key :: "NodeView \<Rightarrow> string \<Rightarrow> NodeView" where
  "index_key v key =
     (if \<not> is_map v then None
      else (case v of None \<Rightarrow> None | Some n \<Rightarrow> map_of (mapping n) key))"

definition index_idx :: "NodeView \<Rightarrow> nat \<Rightarrow> NodeView" where
  "index_idx v idx =
     (if \<not> is_seq v then None
      else (case v of
              None \<Rightarrow> None
            | Some n \<Rightarrow> if length (sequence n) \<le> idx then None else Some (sequence n ! idx)))"

text \<open>
  \<^verbatim>\<open>at_path\<close>: the outer \<^verbatim>\<open>while (p < end)\<close> is the recursion, on the rest of the path. The
  index is a \<^verbatim>\<open>size_t\<close> of 64 bits, so \<^verbatim>\<open>idx * 10 + digit\<close> wraps.
\<close>

definition path_index :: "string \<Rightarrow> nat" where
  "path_index ds = foldl (\<lambda>idx c. (idx * 10 + digit_val c) mod 2 ^ 64) 0 ds"

definition in_token :: "char \<Rightarrow> bool" where
  "in_token c = (c \<noteq> CHR ''.'' \<and> c \<noteq> CHR ''['')"

function at_path_loop :: "string \<Rightarrow> NodeView \<Rightarrow> NodeView" where
  "at_path_loop p cur =
     (if p = [] then cur
      else if hd p = CHR ''.'' then at_path_loop (tl p) cur
      else
        let token = takeWhile in_token p;
            p1 = dropWhile in_token p;
            cur1 = (if token \<noteq> [] then index_key cur token else cur)
        in if token \<noteq> [] \<and> cur1 = None then None
           else if p1 \<noteq> [] \<and> hd p1 = CHR ''['' then
             let p2 = tl p1;
                 idx = path_index (takeWhile isdigit p2);
                 p3 = dropWhile isdigit p2
             in if p3 = [] \<or> hd p3 \<noteq> CHR '']'' then None
                else (case index_idx cur1 idx of
                        None \<Rightarrow> None
                      | Some n \<Rightarrow> at_path_loop (tl p3) (Some n))
           else at_path_loop p1 cur1)"
  by pat_completeness auto

lemma length_dropWhile_tl: "xs \<noteq> [] \<Longrightarrow> length (tl (dropWhile P (tl xs))) < length xs"
proof (cases xs)
  case Nil
  assume "xs \<noteq> []"
  with Nil show ?thesis by simp
next
  case (Cons a list)
  have "length (dropWhile P list) \<le> length list"
    by (rule length_dropWhile_le)
  then show ?thesis using Cons by simp
qed

lemma length_dropWhile_in_token:
  "p \<noteq> [] \<Longrightarrow> hd p \<noteq> CHR ''.'' \<Longrightarrow> \<not> (dropWhile in_token p \<noteq> [] \<and> hd (dropWhile in_token p) = CHR ''['')
   \<Longrightarrow> length (dropWhile in_token p) < length p"
  by (cases p) (auto simp: in_token_def less_Suc_eq_le length_dropWhile_le split: if_splits)

termination at_path_loop
proof (relation "measure (\<lambda>(p, cur). length p)", goal_cases)
  case 1
  show ?case by simp
next
  case (2 p cur)
  then show ?case by (cases p) auto
next
  case (3 p cur token p1 cur1 p2 idx p3 n)
  have "p1 \<noteq> []" using 3 by auto
  then have "length (tl (dropWhile isdigit (tl p1))) < length p1"
    by (rule length_dropWhile_tl)
  moreover have "length p1 \<le> length p"
    using 3 by (simp add: length_dropWhile_le)
  ultimately show ?case using 3 by simp
next
  case (4 p cur token p1 cur1)
  then show ?case
    using length_dropWhile_in_token [of p] by auto
qed

declare at_path_loop.simps [simp del]

definition at_path :: "NodeView \<Rightarrow> string \<Rightarrow> NodeView" where
  "at_path v path = at_path_loop path v"

text \<open>
  \<^verbatim>\<open>template <class T> T value(path, def)\<close>. The type \<^verbatim>\<open>T\<close> is read off the default:
  a \<^verbatim>\<open>std::string\<close>, a \<^verbatim>\<open>const char *\<close> (its C string), a \<^verbatim>\<open>bool\<close>, an integral type (signed
  or not, with its width in bits), a floating-point type, or any other type.
  \<^verbatim>\<open>static_cast<T>\<close> of a \<^verbatim>\<open>long long\<close> to an integral type wraps; of a \<^verbatim>\<open>double\<close> to a
  floating-point type it is the parameter \<open>narrow\<close>.
\<close>

datatype 'f Target =
    TString string
  | TCharPtr string
  | TBool bool
  | TIntegral bool nat int
  | TFloating 'f
  | TOther

definition static_cast_int :: "bool \<Rightarrow> nat \<Rightarrow> int \<Rightarrow> int" where
  "static_cast_int signed bits v =
     (if signed then (v + 2 ^ (bits - 1)) mod 2 ^ bits - 2 ^ (bits - 1) else v mod 2 ^ bits)"

definition value_at ::
  "'d strtod_fn \<Rightarrow> ('d \<Rightarrow> 'f) \<Rightarrow> NodeView \<Rightarrow> string \<Rightarrow> 'f Target \<Rightarrow> YamlError + 'f Target" where
  "value_at strtod narrow view path def =
     (let v = at_path view path in
      if v = None then Inr def
      else (case def of
          TString _ \<Rightarrow>
            if is_scalar v
            then (case as_str v of Inl e \<Rightarrow> Inl e | Inr s \<Rightarrow> Inr (TString s))
            else Inr def
        | TCharPtr _ \<Rightarrow>
            if is_scalar v
            then (case as_str v of Inl e \<Rightarrow> Inl e | Inr s \<Rightarrow> Inr (TCharPtr (c_str s)))
            else Inr def
        | TBool _ \<Rightarrow>
            (case to_bool v of
               Inl e \<Rightarrow> Inl e
             | Inr b \<Rightarrow> (case b of Some x \<Rightarrow> Inr (TBool x) | None \<Rightarrow> Inr def))
        | TIntegral signed bits _ \<Rightarrow>
            (case to_int v of
               Inl e \<Rightarrow> Inl e
             | Inr i \<Rightarrow>
                 (case i of
                    Some x \<Rightarrow> Inr (TIntegral signed bits (static_cast_int signed bits x))
                  | None \<Rightarrow> Inr def))
        | TFloating _ \<Rightarrow>
            (case to_double strtod v of
               Inl e \<Rightarrow> Inl e
             | Inr d \<Rightarrow> (case d of Some x \<Rightarrow> Inr (TFloating (narrow x)) | None \<Rightarrow> Inr def))
        | TOther \<Rightarrow> Inr def))"

text \<open>
  The steps that a path denotes and their resolution one after the other, as the
  specification describes path lookup; \<open>at_path\<close> is compared with them below. A path is a
  run of keys and bracketed indices: dots separate, a key runs up to the next dot or
  opening bracket, and an index is the digit run between an opening bracket and the closing
  bracket that must follow it (no digit reads as 0; the number is taken modulo \<open>2 ^ 64\<close>).
  \<open>None\<close> marks a bracket that is not closed after its digits.
\<close>

datatype PathStep = Key string | Index nat

fun resolve :: "NodeView \<Rightarrow> PathStep list \<Rightarrow> NodeView" where
  "resolve v [] = v"
| "resolve v (Key k # ss) =
     (case index_key v k of None \<Rightarrow> None | Some n \<Rightarrow> resolve (Some n) ss)"
| "resolve v (Index i # ss) =
     (case index_idx v i of None \<Rightarrow> None | Some n \<Rightarrow> resolve (Some n) ss)"

function path_steps :: "string \<Rightarrow> PathStep list option" where
  "path_steps p =
     (if p = [] then Some []
      else if hd p = CHR ''.'' then path_steps (tl p)
      else
        let token = takeWhile in_token p;
            p1 = dropWhile in_token p;
            keys = (if token \<noteq> [] then [Key token] else [])
        in if p1 \<noteq> [] \<and> hd p1 = CHR ''['' then
             let p2 = tl p1;
                 idx = path_index (takeWhile isdigit p2);
                 p3 = dropWhile isdigit p2
             in if p3 = [] \<or> hd p3 \<noteq> CHR '']'' then None
                else (case path_steps (tl p3) of
                        None \<Rightarrow> None
                      | Some ss \<Rightarrow> Some (keys @ Index idx # ss))
           else (case path_steps p1 of None \<Rightarrow> None | Some ss \<Rightarrow> Some (keys @ ss)))"
  by pat_completeness auto

termination path_steps
proof (relation "measure length", goal_cases)
  case 1
  show ?case by simp
next
  case (2 p)
  then show ?case by (cases p) auto
next
  case (3 p token p1 keys p2 idx p3)
  have "p1 \<noteq> []" using 3 by auto
  then have "length (tl (dropWhile isdigit (tl p1))) < length p1"
    by (rule length_dropWhile_tl)
  moreover have "length p1 \<le> length p"
    using 3 by (simp add: length_dropWhile_le)
  ultimately show ?case using 3 by simp
next
  case (4 p token p1 keys)
  then show ?case
    using length_dropWhile_in_token [of p] by auto
qed

declare path_steps.simps [simp del]

section \<open>The input stream\<close>

text \<open>
  \<^verbatim>\<open>parse\<close> reads from a \<^verbatim>\<open>std::stringstream\<close> over the text: the characters, the read
  position and the state bits \<^verbatim>\<open>eofbit\<close> and \<^verbatim>\<open>failbit\<close>.
\<close>

record istream =
  buf :: string
  gpos :: nat
  eofbit :: bool
  failbit :: bool

definition stringstream :: "string \<Rightarrow> istream" where
  "stringstream s = \<lparr>buf = s, gpos = 0, eofbit = False, failbit = False\<rparr>"

text \<open>
  \<^verbatim>\<open>std::getline(input, line, delim)\<close>. A stream that is not good fails (the sentry sets
  \<^verbatim>\<open>failbit\<close>). Otherwise characters are taken up to the delimiter, which is taken too and
  dropped, or up to the end, which sets \<^verbatim>\<open>eofbit\<close>; \<^verbatim>\<open>failbit\<close> is set when nothing at all was
  taken. \<open>None\<close> is the false result of the call.
\<close>

definition getline :: "char \<Rightarrow> istream \<Rightarrow> string option \<times> istream" where
  "getline delim s =
     (if eofbit s \<or> failbit s then (None, s\<lparr>failbit := True\<rparr>)
      else
        let rest = drop (gpos s) (buf s);
            ln = takeWhile (\<lambda>c. c \<noteq> delim) rest
        in if length ln < length rest then (Some ln, s\<lparr>gpos := gpos s + length ln + 1\<rparr>)
           else if ln = [] then (None, s\<lparr>eofbit := True, failbit := True\<rparr>)
           else (Some ln, s\<lparr>gpos := gpos s + length ln, eofbit := True\<rparr>))"

text \<open>
  \<^verbatim>\<open>tellg()\<close>: \<open>None\<close> is the position -1 of a stream that is not good, on which the sentry
  sets \<^verbatim>\<open>failbit\<close>.
\<close>

definition tellg :: "istream \<Rightarrow> nat option \<times> istream" where
  "tellg s =
     (if eofbit s \<or> failbit s then (None, s\<lparr>failbit := True\<rparr>) else (Some (gpos s), s))"

text \<open>
  \<^verbatim>\<open>seekg(pos)\<close> and \<^verbatim>\<open>seekg(off, std::ios::cur)\<close> clear \<^verbatim>\<open>eofbit\<close> first and move the position
  unless the stream has failed; a position outside of the text sets \<^verbatim>\<open>failbit\<close>.
\<close>

definition seekg :: "nat \<Rightarrow> istream \<Rightarrow> istream" where
  "seekg p s =
     (if failbit s then s\<lparr>eofbit := False\<rparr>
      else if length (buf s) < p then s\<lparr>eofbit := False, failbit := True\<rparr>
      else s\<lparr>gpos := p, eofbit := False\<rparr>)"

definition seekg_cur :: "int \<Rightarrow> istream \<Rightarrow> istream" where
  "seekg_cur off s =
     (if failbit s then s\<lparr>eofbit := False\<rparr>
      else if int (gpos s) + off < 0 \<or> int (length (buf s)) < int (gpos s) + off
      then s\<lparr>eofbit := False, failbit := True\<rparr>
      else s\<lparr>gpos := nat (int (gpos s) + off), eofbit := False\<rparr>)"

text \<open>What is left to read, as a measure for the loops over a stream.\<close>

definition remaining :: "istream \<Rightarrow> nat" where
  "remaining s =
     (if failbit s then 0 else if eofbit s then 1 else 2 + (length (buf s) - gpos s))"

lemma getline_remaining:
  assumes "getline delim s = (Some ln, s1)"
  shows "remaining s1 < remaining s"
proof -
  have g: "\<not> eofbit s" "\<not> failbit s"
    using assms by (auto simp: getline_def split: if_splits)
  let ?rest = "drop (gpos s) (buf s)"
  let ?ln = "takeWhile (\<lambda>c. c \<noteq> delim) ?rest"
  show ?thesis
  proof (cases "length ?ln < length ?rest")
    case True
    then have "s1 = s\<lparr>gpos := gpos s + length ?ln + 1\<rparr>"
      using assms g by (auto simp add: getline_def Let_def)
    moreover have "gpos s < length (buf s)" using True by auto
    ultimately show ?thesis using g by (simp add: remaining_def)
  next
    case False
    then have "s1 = s\<lparr>gpos := gpos s + length ?ln, eofbit := True\<rparr>"
      using assms g by (auto simp add: getline_def Let_def split: if_splits)
    then show ?thesis using g by (simp add: remaining_def)
  qed
qed

text \<open>
  The lines that successive calls of \<^verbatim>\<open>getline\<close> give until one fails: the
  \<^verbatim>\<open>while (std::getline(iss, item, delim))\<close> over a local \<^verbatim>\<open>std::istringstream\<close>.
\<close>

function getlines :: "char \<Rightarrow> istream \<Rightarrow> string list" where
  "getlines delim s =
     (case getline delim s of
        (None, s1) \<Rightarrow> []
      | (Some ln, s1) \<Rightarrow> ln # getlines delim s1)"
  by pat_completeness auto

termination getlines
proof (relation "measure (\<lambda>(delim, s). remaining s)", goal_cases)
  case 1
  show ?case by simp
next
  case (2 delim s x y ln)
  then have "getline delim s = (Some ln, y)" by simp
  then show ?case by (simp add: getline_remaining)
qed

declare getlines.simps [simp del]

section \<open>The helpers of the parser (lines 504-732)\<close>

text \<open>\<^verbatim>\<open>getIndent\<close>: the loop over the characters, with the count so far.\<close>

fun getIndent_loop :: "string \<Rightarrow> int \<Rightarrow> int \<Rightarrow> YamlError + int" where
  "getIndent_loop [] lineNum indent = Inr indent"
| "getIndent_loop (c # cs) lineNum indent =
     (if c = SP then getIndent_loop cs lineNum (indent + 1)
      else if c = TAB then Inl (YamlError TabsInIndentation lineNum (indent + 1))
      else Inr indent)"

definition getIndent :: "string \<Rightarrow> int \<Rightarrow> YamlError + int" where
  "getIndent ln lineNum = getIndent_loop ln lineNum 0"

text \<open>
  \<^verbatim>\<open>unescape\<close>: after a backslash, \<^verbatim>\<open>n\<close> is a newline and \<^verbatim>\<open>t\<close> a tab; the other cases of
  the \<^verbatim>\<open>switch\<close> (backslash, both quotes and the default) all give the character itself.
\<close>

fun unescape :: "string \<Rightarrow> string" where
  "unescape [] = []"
| "unescape [c] = [c]"
| "unescape (c # d # cs) =
     (if c = BSLASH then
        (if d = CHR ''n'' then NL
         else if d = CHR ''t'' then TAB
         else d) # unescape cs
      else c # unescape (d # cs))"

text \<open>
  The quote test that \<^verbatim>\<open>parseFlowSequence\<close>, \<^verbatim>\<open>parseFlowMapping\<close> and \<^verbatim>\<open>parseStream\<close> share:
  a quote character in front, more than one character, and the same character at the end.
\<close>

definition quoted :: "string \<Rightarrow> bool" where
  "quoted val =
     ((front val = DQUOTE \<or> front val = SQUOTE) \<and> 1 < length val \<and> last val = front val)"

definition flowScalar :: "string \<Rightarrow> YamlNode" where
  "flowScalar val =
     YamlNode Scalar Plain
       (if quoted val then unescape (substr val 1 (length val - 2)) else val) [] []"

text \<open>\<^verbatim>\<open>parseFlowSequence\<close>: every item that is not empty after trimming is appended.\<close>

definition parseFlowSequence :: "string \<Rightarrow> int \<Rightarrow> YamlNode" where
  "parseFlowSequence flowContent lineNum =
     YamlNode Sequence Plain []
       (map flowScalar (filter (\<lambda>val. val \<noteq> [])
          (map trim (getlines (CHR '','') (stringstream flowContent))))) []"

text \<open>\<^verbatim>\<open>parseFlowMapping\<close>: the loop over the pairs, with the mapping built so far.\<close>

fun parseFlowMapping_loop :: "string list \<Rightarrow> int \<Rightarrow> (string \<times> YamlNode) list
    \<Rightarrow> YamlError + (string \<times> YamlNode) list" where
  "parseFlowMapping_loop [] lineNum m = Inr m"
| "parseFlowMapping_loop (pair # pairs) lineNum m =
     (case find_char (CHR '':'') pair of
        None \<Rightarrow> Inl (YamlError FlowMissingColon lineNum (-1))
      | Some colon \<Rightarrow>
          let key = trim (substr pair 0 colon);
              val = trim (substr_from pair (colon + 1))
          in if key = [] then Inl (YamlError FlowEmptyKey lineNum (-1))
             else parseFlowMapping_loop pairs lineNum (AList.update key (flowScalar val) m))"

definition parseFlowMapping :: "string \<Rightarrow> int \<Rightarrow> YamlError + YamlNode" where
  "parseFlowMapping flowContent lineNum =
     (case parseFlowMapping_loop (getlines (CHR '','') (stringstream flowContent)) lineNum [] of
        Inl e \<Rightarrow> Inl e
      | Inr m \<Rightarrow> Inr (YamlNode Mapping Plain [] [] m))"

text \<open>
  \<^verbatim>\<open>line.resize(commentPos)\<close> at the first \<^verbatim>\<open>#\<close>, in \<^verbatim>\<open>parseBlockScalar\<close> and in
  \<^verbatim>\<open>parseStream\<close>.
\<close>

definition stripComment :: "string \<Rightarrow> string" where
  "stripComment ln =
     (case find_char (CHR ''#'') ln of None \<Rightarrow> ln | Some commentPos \<Rightarrow> take commentPos ln)"

definition INT_MAX :: int where
  "INT_MAX = 2147483647"

text \<open>
  \<^verbatim>\<open>parseBlockScalar\<close>: the \<^verbatim>\<open>while (std::getline(input, line))\<close> with its local variables.
  The result holds the variables at the end of the loop, the line number and the stream.
\<close>

function parseBlockScalar_loop ::
  "int \<Rightarrow> string list \<Rightarrow> bool \<Rightarrow> int \<Rightarrow> int \<Rightarrow> istream
    \<Rightarrow> YamlError + (string list \<times> bool \<times> int \<times> int \<times> istream)" where
  "parseBlockScalar_loop baseIndent blockLines hasContent minDelta lineNum input =
     (case getline NL input of
        (None, input1) \<Rightarrow> Inr (blockLines, hasContent, minDelta, lineNum, input1)
      | (Some line0, input1) \<Rightarrow>
          (case getIndent (stripComment line0) (lineNum + 1) of
             Inl e \<Rightarrow> Inl e
           | Inr nextIndent \<Rightarrow>
               if trim (stripComment line0) = [] then
                 parseBlockScalar_loop baseIndent
                   (if hasContent then blockLines @ [[]] else blockLines)
                   hasContent minDelta (lineNum + 1) input1
               else if nextIndent \<le> baseIndent then
                 Inr (blockLines, hasContent, minDelta, lineNum + 1 - 1,
                      seekg_cur (- (int (length (stripComment line0)) + 1)) input1)
               else
                 parseBlockScalar_loop baseIndent
                   (blockLines @ [substr_from (stripComment line0) (nat nextIndent)])
                   True
                   (if nextIndent - baseIndent < minDelta then nextIndent - baseIndent else minDelta)
                   (lineNum + 1) input1))"
  by pat_completeness auto

termination parseBlockScalar_loop
proof (relation "measure (\<lambda>(baseIndent, blockLines, hasContent, minDelta, lineNum, input).
    remaining input)", goal_cases)
  case 1
  show ?case by simp
next
  case (2 baseIndent blockLines hasContent minDelta lineNum input x input1 line0 nextIndent)
  then have "getline NL input = (Some line0, input1)" by simp
  then show ?case by (simp add: getline_remaining)
next
  case (3 baseIndent blockLines hasContent minDelta lineNum input x input1 line0 nextIndent)
  then have "getline NL input = (Some line0, input1)" by simp
  then show ?case by (simp add: getline_remaining)
qed

declare parseBlockScalar_loop.simps [simp del]

definition joinLines :: "string list \<Rightarrow> string" where
  "joinLines blockLines = concat (map (\<lambda>ln. ln @ [NL]) blockLines)"

definition parseBlockScalar :: "int \<Rightarrow> int \<Rightarrow> istream \<Rightarrow> YamlError + (string \<times> int \<times> istream)" where
  "parseBlockScalar baseIndent lineNum input =
     (case parseBlockScalar_loop baseIndent [] False INT_MAX lineNum input of
        Inl e \<Rightarrow> Inl e
      | Inr (blockLines, hasContent, minDelta, lineNum1, input1) \<Rightarrow>
          Inr (joinLines blockLines, lineNum1, input1))"

text \<open>\<^verbatim>\<open>applyChomp\<close> (lines 684-701).\<close>

definition applyChomp :: "string \<Rightarrow> char \<Rightarrow> string" where
  "applyChomp content chomp =
     (if content = [] then content
      else (case find_last_not_of [NL] content of
              None \<Rightarrow> []
            | Some lastNonNewline \<Rightarrow>
                let base = substr content 0 (lastNonNewline + 1)
                in if chomp = CHR ''-'' then base
                   else if chomp = CHR ''+'' then content
                   else base @ [NL]))"

text \<open>\<^verbatim>\<open>foldBlock\<close>: the loop over the lines of the content.\<close>

fun foldBlock_loop :: "string list \<Rightarrow> string \<Rightarrow> bool \<Rightarrow> bool \<Rightarrow> string" where
  "foldBlock_loop [] folded first newParagraph = folded"
| "foldBlock_loop (ln # lns) folded first newParagraph =
     (if ln = [] then foldBlock_loop lns folded first True
      else foldBlock_loop lns
             (folded @ (if \<not> first then (if newParagraph then [NL] else [SP]) else []) @ rtrim ln)
             False False)"

definition foldBlock :: "string \<Rightarrow> string" where
  "foldBlock content = foldBlock_loop (getlines NL (stringstream content)) [] True False"

section \<open>The indentation stack machine (lines 737-898)\<close>

text \<open>
  A \<^verbatim>\<open>YamlNode *\<close> into the tree under construction is the way to the node from the root:
  \<open>Key k\<close> is the entry \<^verbatim>\<open>mapping[k]\<close>, \<open>Index i\<close> the element \<^verbatim>\<open>sequence[i]\<close>, whatever the
  type tag of the node says. \<open>node_at\<close> reads through such a pointer, \<open>update_at\<close> writes
  through it.
\<close>

fun node_at :: "PathStep list \<Rightarrow> YamlNode \<Rightarrow> YamlNode option" where
  "node_at [] n = Some n"
| "node_at (Key k # ps) n =
     (case map_of (mapping n) k of None \<Rightarrow> None | Some c \<Rightarrow> node_at ps c)"
| "node_at (Index i # ps) n =
     (if i < length (sequence n) then node_at ps (sequence n ! i) else None)"

fun update_at :: "PathStep list \<Rightarrow> (YamlNode \<Rightarrow> YamlNode) \<Rightarrow> YamlNode \<Rightarrow> YamlNode" where
  "update_at [] f n = f n"
| "update_at (Key k # ps) f n =
     (case map_of (mapping n) k of
        None \<Rightarrow> n
      | Some c \<Rightarrow>
          YamlNode (type n) (style n) (scalarValue n) (sequence n)
            (AList.update k (update_at ps f c) (mapping n)))"
| "update_at (Index i # ps) f n =
     (if i < length (sequence n)
      then YamlNode (type n) (style n) (scalarValue n)
             ((sequence n)[i := update_at ps f (sequence n ! i)]) (mapping n)
      else n)"

text \<open>The assignments to single members of a node.\<close>

definition push_back :: "YamlNode \<Rightarrow> YamlNode \<Rightarrow> YamlNode" where
  "push_back item n = YamlNode (type n) (style n) (scalarValue n) (sequence n @ [item]) (mapping n)"

definition assign_key :: "string \<Rightarrow> YamlNode \<Rightarrow> YamlNode \<Rightarrow> YamlNode" where
  "assign_key key v n =
     YamlNode (type n) (style n) (scalarValue n) (sequence n) (AList.update key v (mapping n))"

definition append_scalar :: "string \<Rightarrow> YamlNode \<Rightarrow> YamlNode" where
  "append_scalar s n = YamlNode (type n) (style n) (scalarValue n @ s) (sequence n) (mapping n)"

text \<open>
  Lines 769-772 and 819-822: a current node of another type gets the type of the line and an
  empty \<^verbatim>\<open>sequence\<close>; its \<^verbatim>\<open>mapping\<close> is left as it is.
\<close>

definition becomeSequence :: "YamlNode \<Rightarrow> YamlNode" where
  "becomeSequence n =
     (if type n \<noteq> Sequence then YamlNode Sequence (style n) (scalarValue n) [] (mapping n) else n)"

definition becomeMapping :: "YamlNode \<Rightarrow> YamlNode" where
  "becomeMapping n =
     (if type n \<noteq> Mapping then YamlNode Mapping (style n) (scalarValue n) [] (mapping n) else n)"

text \<open>
  The local variables of \<^verbatim>\<open>parseStream\<close>. The stack has its top (\<^verbatim>\<open>stack.back()\<close>) in front.
\<close>

record ParseState =
  root :: YamlNode
  stack :: "(PathStep list \<times> int) list"
  lastScalarNode :: "PathStep list option"
  linecount :: int
  istr :: istream

text \<open>Lines 755-757: \<^verbatim>\<open>while (stack.size() > 1 && indent <= stack.back().second)\<close>.\<close>

fun pop_frames :: "int \<Rightarrow> (PathStep list \<times> int) list \<Rightarrow> (PathStep list \<times> int) list" where
  "pop_frames indent (f # g # fs) =
     (if indent \<le> snd f then pop_frames indent (g # fs) else f # g # fs)"
| "pop_frames indent fs = fs"

text \<open>Lines 774-793: the item of a sequence line, from the text after the dash.\<close>

definition sequenceItem :: "string \<Rightarrow> YamlNode" where
  "sequenceItem itemValue =
     (if itemValue \<noteq> [] then
        (case find_char (CHR '':'') itemValue of
           Some colonPos \<Rightarrow>
             let key = trim (substr itemValue 0 colonPos);
                 val = trim (substr_from itemValue (colonPos + 1))
             in YamlNode Mapping Plain [] []
                  (if key \<noteq> [] then [(key, YamlNode Scalar Plain val [] [])] else [])
         | None \<Rightarrow> YamlNode Scalar Plain itemValue [] [])
      else YamlNode Mapping Plain [] [] [])"

text \<open>
  Lines 768-798, the line that starts with a dash. \<open>ptr\<close> is \<^verbatim>\<open>currentNode\<close>. A pointer that
  leads to no node cannot come up; the model reports it as \<open>NullView\<close>.
\<close>

definition sequenceLine :: "string \<Rightarrow> int \<Rightarrow> PathStep list \<Rightarrow> ParseState \<Rightarrow> YamlError + ParseState" where
  "sequenceLine content indent ptr st =
     (case node_at ptr (root st) of
        None \<Rightarrow> Inl (YamlError NullView (linecount st) (-1))
      | Some currentNode \<Rightarrow>
          let itemValue = trim (substr_from content 1);
              item = sequenceItem itemValue;
              back = length (sequence (becomeSequence currentNode))
          in Inr (st\<lparr>root := update_at ptr (\<lambda>n. push_back item (becomeSequence n)) (root st),
                     stack := (if type item = Mapping \<and> itemValue = []
                               then (ptr @ [Index back], indent) # stack st
                               else stack st)\<rparr>))"

text \<open>
  Lines 849-876, a value that is not empty and no block header: quotes, the ambiguous colon,
  flow collections.
\<close>

definition inlineValue :: "string \<Rightarrow> string \<Rightarrow> PathStep list \<Rightarrow> ParseState \<Rightarrow> YamlError + ParseState" where
  "inlineValue key val ptr st =
     (let wasQuoted = quoted val;
          value1 = (if wasQuoted then unescape (substr val 1 (length val - 2)) else val)
      in if \<not> wasQuoted \<and> contains_str '': '' value1
         then Inl (YamlError AmbiguousColon (linecount st) (-1))
         else
           let value2 = trim value1
           in (case (if front value2 = CHR ''['' \<and> last value2 = CHR '']''
                     then Inr (parseFlowSequence (substr value2 1 (length value2 - 2)) (linecount st))
                     else if front value2 = CHR ''{'' \<and> last value2 = CHR ''}''
                     then parseFlowMapping (substr value2 1 (length value2 - 2)) (linecount st)
                     else Inr (YamlNode Scalar Plain value2 [] [])) of
                 Inl e \<Rightarrow> Inl e
               | Inr node \<Rightarrow>
                   Inr (st\<lparr>root := update_at ptr (assign_key key node) (root st),
                           lastScalarNode :=
                             (if type node = Scalar then Some (ptr @ [Key key]) else None)\<rparr>)))"

text \<open>Lines 829-847, a value that starts with the bar or the angle bracket.\<close>

definition blockValue :: "string \<Rightarrow> string \<Rightarrow> int \<Rightarrow> PathStep list \<Rightarrow> ParseState \<Rightarrow> YamlError + ParseState" where
  "blockValue key val indent ptr st =
     (let indicator = front val;
          chomp = (if 1 < length val \<and> (val ! 1 = CHR ''-'' \<or> val ! 1 = CHR ''+'') then val ! 1
                   else SP)
      in (case parseBlockScalar indent (linecount st) (istr st) of
            Inl e \<Rightarrow> Inl e
          | Inr (block, linecount1, input1) \<Rightarrow>
              let nodeStyle = (if indicator = CHR ''|'' then Literal else Folded);
                  block1 = (if nodeStyle = Folded then foldBlock block else block);
                  node = YamlNode Scalar nodeStyle (applyChomp block1 chomp) [] []
              in Inr (st\<lparr>root := update_at ptr (assign_key key node) (root st),
                         lastScalarNode := None,
                         linecount := linecount1,
                         istr := input1\<rparr>)))"

text \<open>
  Lines 878-892, the empty value: the next line is read, looked at and given back with
  \<^verbatim>\<open>seekg(pos)\<close>, where \<^verbatim>\<open>pos\<close> is -1 when \<^verbatim>\<open>tellg\<close> failed.
\<close>

definition emptyValue :: "string \<Rightarrow> int \<Rightarrow> PathStep list \<Rightarrow> ParseState \<Rightarrow> YamlError + ParseState" where
  "emptyValue key indent ptr st =
     (case tellg (istr st) of
        (p, input1) \<Rightarrow>
          (case getline NL input1 of
             (peek, input2) \<Rightarrow>
               (case (case peek of
                        None \<Rightarrow> Inr (Mapping, input2)
                      | Some peekLine \<Rightarrow>
                          (case getIndent peekLine (linecount st + 1) of
                             Inl e \<Rightarrow> Inl e
                           | Inr peekIndent \<Rightarrow>
                               let peekContent = trim (substr_from peekLine (nat peekIndent))
                               in Inr (if peekContent \<noteq> [] \<and> front peekContent = CHR ''-''
                                       then Sequence else Mapping,
                                       (case p of
                                          None \<Rightarrow> input2\<lparr>eofbit := False, failbit := True\<rparr>
                                        | Some q \<Rightarrow> seekg q input2)))) of
                  Inl e \<Rightarrow> Inl e
                | Inr (inferredType, input3) \<Rightarrow>
                    Inr (st\<lparr>root := update_at ptr (assign_key key (newNode inferredType)) (root st),
                            stack := (ptr @ [Key key], indent) # stack st,
                            lastScalarNode := None,
                            istr := input3\<rparr>))))"

text \<open>Lines 800-893, the line that does not start with a dash. \<open>ln\<close> is the line without its comment.\<close>

definition mappingLine :: "string \<Rightarrow> string \<Rightarrow> int \<Rightarrow> PathStep list \<Rightarrow> ParseState \<Rightarrow> YamlError + ParseState" where
  "mappingLine ln content indent ptr st =
     (case find_char (CHR '':'') content of
        None \<Rightarrow>
          (case lastScalarNode st of
             Some lastScalar \<Rightarrow>
               Inr (st\<lparr>root := update_at lastScalar (append_scalar ([NL] @ trim ln)) (root st)\<rparr>)
           | None \<Rightarrow> Inl (YamlError MissingColon (linecount st) (-1)))
      | Some colonPos \<Rightarrow>
          let key = trim (substr content 0 colonPos);
              val = trim (substr_from content (colonPos + 1))
          in if key = [] then Inl (YamlError EmptyKey (linecount st) (-1))
             else
               let st1 = st\<lparr>root := update_at ptr becomeMapping (root st)\<rparr>
               in if val \<noteq> [] then
                    (if front val = CHR ''|'' \<or> front val = CHR ''>''
                     then blockValue key val indent ptr st1
                     else inlineValue key val ptr st1)
                  else emptyValue key indent ptr st1)"

text \<open>
  Lines 747-894, the body of the loop for one line that \<^verbatim>\<open>getline\<close> has given; the state has
  the line counted and the stream after the line.
\<close>

definition processLine :: "string \<Rightarrow> ParseState \<Rightarrow> YamlError + ParseState" where
  "processLine line0 st =
     (let ln = stripComment line0
      in if ln = [] \<or> trim ln = [] then Inr st
         else
           (case getIndent ln (linecount st) of
              Inl e \<Rightarrow> Inl e
            | Inr indent \<Rightarrow>
                let content = trim (substr_from ln (nat indent));
                    stack1 = pop_frames indent (stack st)
                in (case stack1 of
                      [] \<Rightarrow> Inl (YamlError InvalidIndentation (linecount st) (-1))
                    | (ptr, frameIndent) # frames \<Rightarrow>
                        if frameIndent < indent \<and> lastScalarNode st \<noteq> None
                        then Inl (YamlError UnexpectedIndentation (linecount st) (-1))
                        else if front content = CHR ''-''
                        then sequenceLine content indent ptr (st\<lparr>stack := stack1\<rparr>)
                        else mappingLine ln content indent ptr (st\<lparr>stack := stack1\<rparr>))))"

text \<open>What a line leaves of the stream: for the termination of the loop over the lines.\<close>

definition rewound :: "istream \<Rightarrow> istream \<Rightarrow> bool" where
  "rewound s1 s3 =
     (failbit s3 \<or>
      (\<not> eofbit s3 \<and> \<not> eofbit s1 \<and> \<not> failbit s1 \<and> buf s3 = buf s1 \<and> gpos s1 \<le> gpos s3 + 1))"

lemma getline_Some:
  assumes "getline d s = (Some ln, s')"
  shows "\<not> eofbit s" and "\<not> failbit s" and "\<not> failbit s'" and "buf s' = buf s"
    and "gpos s + length ln \<le> gpos s'"
    and "\<not> eofbit s' \<Longrightarrow> gpos s' = gpos s + length ln + 1"
    and "gpos s < length (buf s)"
    and "gpos s' \<le> length (buf s)"
proof -
  show g: "\<not> eofbit s" "\<not> failbit s"
    using assms by (auto simp: getline_def split: if_splits)
  let ?rest = "drop (gpos s) (buf s)"
  let ?ln = "takeWhile (\<lambda>c. c \<noteq> d) ?rest"
  have le: "length ?ln \<le> length (buf s) - gpos s"
    using length_takeWhile_le [of "\<lambda>c. c \<noteq> d" ?rest] by simp
  consider (delim) "length ?ln < length ?rest" "ln = ?ln" "s' = s\<lparr>gpos := gpos s + length ?ln + 1\<rparr>"
    | (eof) "\<not> length ?ln < length ?rest" "?ln \<noteq> []" "ln = ?ln"
        "s' = s\<lparr>gpos := gpos s + length ?ln, eofbit := True\<rparr>"
    using assms g by (auto simp: getline_def Let_def split: if_splits)
  then have all: "\<not> failbit s' \<and> buf s' = buf s \<and> gpos s + length ln \<le> gpos s'
      \<and> (\<not> eofbit s' \<longrightarrow> gpos s' = gpos s + length ln + 1)
      \<and> gpos s < length (buf s) \<and> gpos s' \<le> length (buf s)"
  proof cases
    case delim
    then show ?thesis using g le by auto
  next
    case eof
    have "gpos s < length (buf s)" using eof(2) by (cases "gpos s < length (buf s)") auto
    then show ?thesis using eof g le by auto
  qed
  show "\<not> failbit s'" "buf s' = buf s" "gpos s + length ln \<le> gpos s'"
    "gpos s < length (buf s)" "gpos s' \<le> length (buf s)"
    using all by simp_all
  show "gpos s' = gpos s + length ln + 1" if "\<not> eofbit s'" using all that by simp
qed

lemma getline_None: "getline d s = (None, s') \<Longrightarrow> failbit s'"
  by (auto simp: getline_def Let_def split: if_splits)

lemma length_stripComment: "length (stripComment ln) \<le> length ln"
  by (simp add: stripComment_def split: option.splits)

lemma parseBlockScalar_loop_rewound:
  assumes "parseBlockScalar_loop baseIndent blockLines hasContent minDelta lineNum input
      = Inr (bl, hc, md, ln1, in1)"
  shows "rewound input in1"
  using assms
proof (induction "remaining input" arbitrary: blockLines hasContent minDelta lineNum input
    rule: less_induct)
  case less
  note e = parseBlockScalar_loop.simps [of baseIndent blockLines hasContent minDelta lineNum input]
  obtain x input1 where g: "getline NL input = (x, input1)" by (cases "getline NL input")
  show ?case
  proof (cases x)
    case None
    with g have "failbit input1" by (simp add: getline_None)
    moreover have "in1 = input1" using less.prems g None unfolding e by simp
    ultimately show ?thesis by (simp add: rewound_def)
  next
    case (Some line0)
    with g have g': "getline NL input = (Some line0, input1)" by simp
    then have rem: "remaining input1 < remaining input" by (rule getline_remaining)
    note gs = getline_Some [OF g']
    let ?L = "stripComment line0"
    have step: "rewound input in1" if "rewound input1 in1"
      using that gs(1,2,4,5) by (auto simp: rewound_def)
    show ?thesis
    proof (cases "getIndent ?L (lineNum + 1)")
      case (Inl err)
      with less.prems g' show ?thesis unfolding e by simp
    next
      case (Inr nextIndent)
      show ?thesis
      proof (cases "trim ?L = []")
        case True
        have "parseBlockScalar_loop baseIndent (if hasContent then blockLines @ [[]] else blockLines)
            hasContent minDelta (lineNum + 1) input1 = Inr (bl, hc, md, ln1, in1)"
          using less.prems g' Inr True unfolding e by simp
        from less.hyps [OF rem this] show ?thesis by (rule step)
      next
        case ne: False
        show ?thesis
        proof (cases "nextIndent \<le> baseIndent")
          case True
          have i: "in1 = seekg_cur (- (int (length ?L) + 1)) input1"
            using less.prems g' Inr ne True unfolding e by simp
          have "length ?L \<le> length line0" by (rule length_stripComment)
          then show ?thesis
            unfolding i using gs by (auto simp: rewound_def seekg_cur_def)
        next
          case False
          have "parseBlockScalar_loop baseIndent (blockLines @ [substr_from ?L (nat nextIndent)]) True
              (if nextIndent - baseIndent < minDelta then nextIndent - baseIndent else minDelta)
              (lineNum + 1) input1 = Inr (bl, hc, md, ln1, in1)"
            using less.prems g' Inr ne False unfolding e by simp
          from less.hyps [OF rem this] show ?thesis by (rule step)
        qed
      qed
    qed
  qed
qed

lemma sequenceLine_input: "sequenceLine content indent ptr st = Inr st' \<Longrightarrow> istr st' = istr st"
  by (auto simp: sequenceLine_def Let_def split: option.splits)

lemma inlineValue_input: "inlineValue key val ptr st = Inr st' \<Longrightarrow> istr st' = istr st"
  by (auto simp: inlineValue_def Let_def split: if_splits sum.splits)

lemma blockValue_input:
  "blockValue key val indent ptr st = Inr st' \<Longrightarrow> rewound (istr st) (istr st')"
  by (auto simp: blockValue_def parseBlockScalar_def Let_def split: sum.splits
      dest: parseBlockScalar_loop_rewound)

lemma emptyValue_input:
  assumes "emptyValue key indent ptr st = Inr st'"
  shows "istr st' = istr st \<or> failbit (istr st')"
proof -
  obtain p input1 where t: "tellg (istr st) = (p, input1)" by (cases "tellg (istr st)")
  obtain peek input2 where g: "getline NL input1 = (peek, input2)" by (cases "getline NL input1")
  show ?thesis
  proof (cases peek)
    case None
    then have "failbit input2" using g by (simp add: getline_None)
    moreover have "istr st' = input2"
      using assms t g None by (auto simp: emptyValue_def)
    ultimately show ?thesis by simp
  next
    case (Some peekLine)
    with g have g': "getline NL input1 = (Some peekLine, input2)" by simp
    note gs = getline_Some [OF g']
    have good: "input1 = istr st" "p = Some (gpos (istr st))"
      using t gs(1,2) by (auto simp: tellg_def split: if_splits)
    have "seekg (gpos input1) input2 = input1"
      using g' gs(1,2,7)
      by (cases input1) (auto simp: getline_def seekg_def Let_def split: if_splits)
    then have "seekg (gpos (istr st)) input2 = istr st" using good by simp
    then show ?thesis
      using assms t g' good
      by (auto simp: emptyValue_def Let_def split: sum.splits)
  qed
qed

lemma mappingLine_input:
  assumes "mappingLine ln content indent ptr st = Inr st'"
  shows "istr st' = istr st \<or> rewound (istr st) (istr st')"
proof (cases "find_char (CHR '':'') content")
  case None
  with assms show ?thesis by (auto simp: mappingLine_def split: option.splits)
next
  case (Some colonPos)
  let ?key = "trim (substr content 0 colonPos)"
  let ?val = "trim (substr_from content (colonPos + 1))"
  let ?st1 = "st\<lparr>root := update_at ptr becomeMapping (root st)\<rparr>"
  have k: "?key \<noteq> []" using assms Some by (auto simp: mappingLine_def Let_def split: if_splits)
  consider (block) "blockValue ?key ?val indent ptr ?st1 = Inr st'"
    | (inline) "inlineValue ?key ?val ptr ?st1 = Inr st'"
    | (empty) "emptyValue ?key indent ptr ?st1 = Inr st'"
    using assms Some k by (auto simp: mappingLine_def Let_def split: if_splits)
  then show ?thesis
  proof cases
    case block
    from blockValue_input [OF this] show ?thesis by simp
  next
    case inline
    from inlineValue_input [OF this] show ?thesis by simp
  next
    case empty
    from emptyValue_input [OF this] show ?thesis by (auto simp: rewound_def)
  qed
qed

lemma processLine_input:
  assumes "processLine line0 st = Inr st'"
  shows "istr st' = istr st \<or> (line0 \<noteq> [] \<and> rewound (istr st) (istr st'))"
proof (cases "stripComment line0 = [] \<or> trim (stripComment line0) = []")
  case True
  with assms show ?thesis by (auto simp: processLine_def)
next
  case False
  then have ne: "line0 \<noteq> []" by (auto simp: stripComment_def find_char_def)
  let ?ln = "stripComment line0"
  from assms False obtain indent where i: "getIndent ?ln (linecount st) = Inr indent"
    by (auto simp: processLine_def Let_def split: sum.splits)
  let ?content = "trim (substr_from ?ln (nat indent))"
  let ?stack1 = "pop_frames indent (stack st)"
  obtain ptr frameIndent frames where pf: "?stack1 = (ptr, frameIndent) # frames"
    using assms False i
    by (cases ?stack1) (auto simp: processLine_def Let_def split: if_splits)
  let ?st1 = "st\<lparr>stack := ?stack1\<rparr>"
  show ?thesis
  proof (cases "front ?content = CHR ''-''")
    case True
    then have "sequenceLine ?content indent ptr ?st1 = Inr st'"
      using assms False i pf by (auto simp: processLine_def Let_def split: if_splits)
    from sequenceLine_input [OF this] show ?thesis by simp
  next
    case nd: False
    then have "mappingLine ?ln ?content indent ptr ?st1 = Inr st'"
      using assms False i pf by (auto simp: processLine_def Let_def split: if_splits)
    from mappingLine_input [OF this] ne show ?thesis by simp
  qed
qed

lemma processLine_remaining:
  assumes g: "getline NL s = (Some line0, s1)"
    and p: "processLine line0 st1 = Inr st'"
    and i: "istr st1 = s1"
  shows "remaining (istr st') < remaining s"
proof -
  note gs = getline_Some [OF g]
  from processLine_input [OF p] i
  consider (same) "istr st' = s1" | (failed) "failbit (istr st')"
    | (rew) "line0 \<noteq> []" "\<not> failbit (istr st')" "\<not> eofbit (istr st')" "\<not> eofbit s1"
        "buf (istr st') = buf s1" "gpos s1 \<le> gpos (istr st') + 1"
    by (auto simp: rewound_def)
  then show ?thesis
  proof cases
    case same
    then show ?thesis using getline_remaining [OF g] by simp
  next
    case failed
    then show ?thesis using gs(1,2) by (simp add: remaining_def)
  next
    case rew
    have "gpos s1 = gpos s + length line0 + 1" using gs(6) rew(4) by simp
    moreover have "0 < length line0" using rew(1) by simp
    ultimately have "gpos s < gpos (istr st')" using rew(6) by linarith
    then show ?thesis
      using rew gs(1,2,4,7) by (simp add: remaining_def)
  qed
qed

text \<open>
  \<^verbatim>\<open>parseStream\<close>: the \<^verbatim>\<open>while (std::getline(input, line))\<close> over the states, and \<^verbatim>\<open>parse\<close>,
  which starts it on the text with the root mapping, the frame of the root and no last scalar.
\<close>

function parseStream_loop :: "ParseState \<Rightarrow> YamlError + YamlNode" where
  "parseStream_loop st =
     (case getline NL (istr st) of
        (None, input1) \<Rightarrow> Inr (root st)
      | (Some line0, input1) \<Rightarrow>
          (case processLine line0 (st\<lparr>linecount := linecount st + 1, istr := input1\<rparr>) of
             Inl e \<Rightarrow> Inl e
           | Inr st1 \<Rightarrow> parseStream_loop st1))"
  by pat_completeness auto

termination parseStream_loop
proof (relation "measure (\<lambda>st. remaining (istr st))", goal_cases)
  case 1
  show ?case by simp
next
  case (2 st x input1 line0 st1)
  then have g: "getline NL (istr st) = (Some line0, input1)" by simp
  have "remaining (istr st1) < remaining (istr st)"
    using g 2(3) by (rule processLine_remaining) simp
  then show ?case by simp
qed

declare parseStream_loop.simps [simp del]

definition parseStream :: "istream \<Rightarrow> YamlError + YamlNode" where
  "parseStream inp =
     parseStream_loop
       \<lparr>root = newNode Mapping, stack = [([], -1)], lastScalarNode = None, linecount = 0,
        istr = inp\<rparr>"

definition parse :: "string \<Rightarrow> YamlError + YamlNode" where
  "parse text = parseStream (stringstream text)"



section \<open>Definitions in the words of the specification\<close>

text \<open>
  The null set of the classifier, in the words of the specification: null in any case, the
  tilde, or the empty text.
\<close>

definition isNullText :: "string \<Rightarrow> bool" where
  "isNullText s = (map tolower s = ''null'' \<or> s = ''~'' \<or> s = [])"

text \<open>A text without its trailing newlines.\<close>

definition stripNL :: "string \<Rightarrow> string" where
  "stripNL t = rev (dropWhile (\<lambda>c. c = NL) (rev t))"

section \<open>Properties of the scalar classifier\<close>

lemma iequals_map: "iequals a b \<longleftrightarrow> map tolower a = map tolower b"
  unfolding iequals_def
  by (induction a arbitrary: b) (auto simp: list_all2_Cons1)

lemma lower_lits:
  "map tolower ''Yes'' = ''yes''" "map tolower ''True'' = ''true''" "map tolower ''on'' = ''on''"
  "map tolower ''true'' = ''true''" "map tolower ''No'' = ''no''" "map tolower ''False'' = ''false''"
  "map tolower ''off'' = ''off''" "map tolower ''false'' = ''false''" "map tolower ''null'' = ''null''"
  "map tolower ''yes'' = ''yes''" "map tolower ''no'' = ''no''"
  by (simp_all add: tolower_def)

lemma deduceType_chain:
  "deduceType strtod val =
     (if (\<exists>l. stol val = Some (l, length val)) then Long (fst (the (stol val)))
      else if (\<exists>d. stod strtod val = Some (d, length val)) then Double (fst (the (stod strtod val)))
      else if map tolower val \<in> {''yes'', ''true'', ''on''} then Bool True
      else if map tolower val \<in> {''no'', ''false'', ''off''} then Bool False
      else if map tolower val = ''null'' \<or> val = ''~'' \<or> val = [] then Monostate
      else String val)"
proof -
  have b: "(iequals val ''Yes'' \<or> iequals val ''True'' \<or> iequals val ''on'' \<or> iequals val ''true'')
      = (map tolower val \<in> {''yes'', ''true'', ''on''})"
    unfolding iequals_map lower_lits by blast
  have c: "(iequals val ''No'' \<or> iequals val ''False'' \<or> iequals val ''off'' \<or> iequals val ''false'')
      = (map tolower val \<in> {''no'', ''false'', ''off''})"
    unfolding iequals_map lower_lits by blast
  have d: "iequals val ''null'' = (map tolower val = ''null'')"
    unfolding iequals_map lower_lits by (rule refl)
  show ?thesis
  proof (cases "stol val")
    case None
    show ?thesis
    proof (cases "stod strtod val")
      case None
      with \<open>stol val = None\<close> show ?thesis
        unfolding deduceType_def b c d by simp
    next
      case (Some a)
      obtain dv pos where a: "a = (dv, pos)" by (cases a)
      with Some \<open>stol val = None\<close> show ?thesis
        unfolding deduceType_def b c d by simp
    qed
  next
    case (Some a)
    obtain l pos where a: "a = (l, pos)" by (cases a)
    show ?thesis
    proof (cases "pos = length val")
      case True
      with Some a show ?thesis unfolding deduceType_def by simp
    next
      case False
      show ?thesis
      proof (cases "stod strtod val")
        case None
        with Some a False show ?thesis
          unfolding deduceType_def b c d by simp
      next
        case (Some a2)
        obtain dv pos2 where a2: "a2 = (dv, pos2)" by (cases a2)
        with Some \<open>stol val = Some a\<close> a False show ?thesis
          unfolding deduceType_def b c d by simp
      qed
    qed
  qed
qed

text \<open>
  C8. \<open>deduceType\<close> is a total function of the text, and its result is fixed by the
  precedence order: the integer when \<^verbatim>\<open>stol\<close> reads the whole text; else the double when
  \<^verbatim>\<open>stod\<close> reads the whole text; else \<open>true\<close> on a text that is yes, true or on when
  lower-cased; else \<open>false\<close> on no, false or off; else the absent value on null (in any
  case), on the tilde and on the empty text; else the text itself.
\<close>

theorem deduceType_precedence:
  "deduceType strtod val =
     (if (\<exists>l. stol val = Some (l, length val)) then Long (fst (the (stol val)))
      else if (\<exists>d. stod strtod val = Some (d, length val)) then Double (fst (the (stod strtod val)))
      else if map tolower val \<in> {''yes'', ''true'', ''on''} then Bool True
      else if map tolower val \<in> {''no'', ''false'', ''off''} then Bool False
      else if map tolower val = ''null'' \<or> val = ''~'' \<or> val = [] then Monostate
      else String val)"
  by (rule deduceType_chain)

section \<open>Properties of the typed accessors\<close>

lemma takeWhile_isspace_front: "\<not> isspace (front s) \<Longrightarrow> takeWhile isspace s = []"
  by (cases s) (auto simp: front_def)

lemma not_isdigit_plus: "\<not> isdigit (CHR ''+'')" "\<not> isdigit (CHR ''-'')" "\<not> isdigit NUL"
  by (simp_all add: isdigit_def)

lemma isdigit_not_isspace: "isdigit c \<Longrightarrow> \<not> isspace c"
  by (auto simp: isdigit_def isspace_def)

lemma takeWhile_isdigit_front: "\<not> isdigit (front s) \<Longrightarrow> takeWhile isdigit s = []"
  by (cases s) (auto simp: front_def)

lemma from_chars_fails: "isspace (front s) \<or> front s = CHR ''+'' \<Longrightarrow> fst (from_chars s) = None"
proof -
  assume a: "isspace (front s) \<or> front s = CHR ''+''"
  then have "front s \<noteq> CHR ''-''" by (auto simp: isspace_def)
  moreover have "\<not> isdigit (front s)" using a isdigit_not_isspace not_isdigit_plus by auto
  ultimately show ?thesis
    by (simp add: from_chars_def takeWhile_isdigit_front)
qed

lemma from_chars_stol:
  assumes "\<not> isspace (front s)" "front s \<noteq> CHR ''+''"
  shows "(from_chars s = (Some v, length s)) = (stol s = Some (v, length s))"
proof -
  have ws: "takeWhile isspace s = []" using assms(1) by (rule takeWhile_isspace_front)
  show ?thesis
    unfolding from_chars_def stol_def ws
    using assms(2) by (simp add: Let_def LONG_MIN_def LONG_MAX_def LLONG_MIN_def LLONG_MAX_def)
qed

lemma nulltest: "(iequals s ''null'' \<or> s = ''~'' \<or> s = []) = isNullText s"
  unfolding isNullText_def iequals_map lower_lits by (rule refl)

lemma toInt_eq:
  "toInt n =
     (if type n \<noteq> Scalar \<or> isNullText (scalarValue n) then None
      else (case deduceType strtod (scalarValue n) of
              Long v \<Rightarrow>
                if isspace (front (scalarValue n)) \<or> front (scalarValue n) = CHR ''+'' then None
                else Some v
            | _ \<Rightarrow> None))"
proof (cases "type n \<noteq> Scalar \<or> isNullText (scalarValue n)")
  case True
  then show ?thesis
    unfolding toInt_def Let_def nulltest isScalar_def by auto
next
  case False
  let ?s = "scalarValue n"
  have base: "toInt n = (case from_chars ?s of
                (Some v, ptr) \<Rightarrow> if ptr = length ?s then Some v else None
              | (None, ptr) \<Rightarrow> None)"
    using False unfolding toInt_def Let_def nulltest isScalar_def by simp
  show ?thesis
  proof (cases "isspace (front ?s) \<or> front ?s = CHR ''+''")
    case True
    then have "fst (from_chars ?s) = None" by (rule from_chars_fails)
    then have "toInt n = None" unfolding base by (cases "from_chars ?s") auto
    then show ?thesis using True False by (simp split: Deduced.splits)
  next
    case ns: False
    then have eq: "\<And>v. (from_chars ?s = (Some v, length ?s)) = (stol ?s = Some (v, length ?s))"
      using from_chars_stol by blast
    show ?thesis
    proof (cases "\<exists>l. stol ?s = Some (l, length ?s)")
      case True
      then obtain l where l: "stol ?s = Some (l, length ?s)" by blast
      then have "from_chars ?s = (Some l, length ?s)" using eq by blast
      then have "toInt n = Some l" unfolding base by simp
      moreover have "deduceType strtod ?s = Long l" using l by (simp add: deduceType_def)
      ultimately show ?thesis using False ns by simp
    next
      case nl: False
      have "toInt n = None"
      proof (cases "from_chars ?s")
        case (Pair a b)
        show ?thesis
        proof (cases a)
          case None
          with Pair show ?thesis unfolding base by simp
        next
          case (Some v)
          have "b \<noteq> length ?s" using Pair Some eq nl by auto
          with Pair Some show ?thesis unfolding base by simp
        qed
      qed
      moreover have "\<And>v. deduceType strtod ?s \<noteq> Long v"
      proof
        fix v assume "deduceType strtod ?s = Long v"
        then have "\<exists>l. stol ?s = Some (l, length ?s)"
          unfolding deduceType_def
          by (cases "stol ?s") (auto split: option.splits prod.splits if_splits)
        with nl show False by blast
      qed
      ultimately show ?thesis using False by (simp split: Deduced.splits)
    qed
  qed
qed

lemma lower_null_disj:
  "isNullText s \<Longrightarrow> map tolower s \<notin> {''true'', ''yes'', ''on'', ''false'', ''no'', ''off''}"
  unfolding isNullText_def by (auto simp: tolower_def)

lemma toBool_eq:
  "toBool n =
     (if type n \<noteq> Scalar then None
      else if map tolower (scalarValue n) \<in> {''true'', ''yes'', ''on''} then Some True
      else if map tolower (scalarValue n) \<in> {''false'', ''no'', ''off''} then Some False
      else None)"
proof -
  have t: "(iequals (scalarValue n) ''true'' \<or> iequals (scalarValue n) ''yes'' \<or> iequals (scalarValue n) ''on'')
      = (map tolower (scalarValue n) \<in> {''true'', ''yes'', ''on''})"
    unfolding iequals_map lower_lits by blast
  have f: "(iequals (scalarValue n) ''false'' \<or> iequals (scalarValue n) ''no'' \<or> iequals (scalarValue n) ''off'')
      = (map tolower (scalarValue n) \<in> {''false'', ''no'', ''off''})"
    unfolding iequals_map lower_lits by blast
  show ?thesis
    unfolding toBool_def Let_def nulltest isScalar_def t f
    using lower_null_disj [of "scalarValue n"] by auto
qed

lemma c_str_id: "NUL \<notin> set s \<Longrightarrow> c_str s = s"
  unfolding c_str_def by (rule takeWhile_eq_all_conv [THEN iffD2]) auto

lemma toDouble_eq:
  assumes "NUL \<notin> set (scalarValue n)"
  shows "toDouble strtod n =
     (if type n \<noteq> Scalar \<or> isNullText (scalarValue n) then None
      else (case stod strtod (scalarValue n) of
              Some (d, pos) \<Rightarrow> if pos = length (scalarValue n) then Some d else None
            | None \<Rightarrow> None))"
proof (cases "type n \<noteq> Scalar \<or> isNullText (scalarValue n)")
  case True
  then show ?thesis
    unfolding toDouble_def Let_def nulltest isScalar_def by auto
next
  case False
  then have ne: "scalarValue n \<noteq> []" by (simp add: isNullText_def)
  obtain d e r where st: "strtod (scalarValue n) = (d, e, r)" by (cases "strtod (scalarValue n)")
  show ?thesis using False ne st
    unfolding toDouble_def Let_def nulltest isScalar_def stod_def c_str_id [OF assms]
    by auto
qed

lemma all_none:
  "type n \<noteq> Scalar \<or> isNullText (scalarValue n) \<Longrightarrow>
     toBool n = None \<and> toInt n = None \<and> toDouble strtod n = None"
  unfolding toBool_def toInt_def toDouble_def Let_def nulltest isScalar_def by auto

lemma stol_has_digit:
  assumes "stol s = Some (v, p)"
  shows "\<exists>c\<in>set s. isdigit c"
proof -
  define r where "r = drop (length (takeWhile isspace s)) s"
  define k where "k = (if front r = CHR ''-'' \<or> front r = CHR ''+'' then 1 else 0::nat)"
  define ds where "ds = takeWhile isdigit (drop k r)"
  have "ds \<noteq> []"
  proof
    assume e: "ds = []"
    have "stol s = None"
      unfolding stol_def Let_def
      by (simp only: e [unfolded ds_def k_def r_def] if_True simp_thms)
    with assms show False by simp
  qed
  then obtain c cs where "ds = c # cs" by (cases ds) auto
  then have c: "c \<in> set ds" by simp
  have d: "isdigit c" using c unfolding ds_def by (rule set_takeWhileD [THEN conjunct2])
  have "c \<in> set (drop k r)" using c unfolding ds_def by (rule set_takeWhileD [THEN conjunct1])
  then have "c \<in> set r" by (rule in_set_dropD)
  then have "c \<in> set s" unfolding r_def by (rule in_set_dropD)
  with d show ?thesis by blast
qed

lemma tolower_digits: "\<forall>c\<in>set ''0123456789''. tolower c = c"
  by (simp add: tolower_def)

lemma tolower_isdigit: "isdigit c \<Longrightarrow> tolower c = c"
  using tolower_digits unfolding isdigit_def by blast

lemma no_digit_lit:
  assumes "isdigit c" "c \<in> set s"
  shows "map tolower s \<notin> {''true'', ''yes'', ''on'', ''false'', ''no'', ''off''}"
proof
  assume x: "map tolower s \<in> {''true'', ''yes'', ''on'', ''false'', ''no'', ''off''}"
  have e: "tolower c = c" using assms(1) by (rule tolower_isdigit)
  have "tolower c \<in> tolower ` set s" using assms(2) by (rule imageI)
  then have cin: "c \<in> set (map tolower s)" unfolding e by simp
  have nd: "c \<notin> set ''trueyesonfalsenooff''"
    using assms(1) by (auto simp: isdigit_def)
  from x have "map tolower s = ''true'' \<or> map tolower s = ''yes'' \<or> map tolower s = ''on''
      \<or> map tolower s = ''false'' \<or> map tolower s = ''no'' \<or> map tolower s = ''off''"
    by (simp only: insert_iff empty_iff simp_thms)
  then show False
  proof (elim disjE)
    assume e: "map tolower s = ''true''"
    show False using cin nd unfolding e by simp
  next
    assume e: "map tolower s = ''yes''"
    show False using cin nd unfolding e by simp
  next
    assume e: "map tolower s = ''on''"
    show False using cin nd unfolding e by simp
  next
    assume e: "map tolower s = ''false''"
    show False using cin nd unfolding e by simp
  next
    assume e: "map tolower s = ''no''"
    show False using cin nd unfolding e by simp
  next
    assume e: "map tolower s = ''off''"
    show False using cin nd unfolding e by simp
  qed
qed

lemma toBool_classifier:
  "toBool n =
     (if type n \<noteq> Scalar then None
      else (case deduceType strtod (scalarValue n) of
              Bool b \<Rightarrow> Some b
            | Double d \<Rightarrow>
                if map tolower (scalarValue n) \<in> {''true'', ''yes'', ''on''} then Some True
                else if map tolower (scalarValue n) \<in> {''false'', ''no'', ''off''} then Some False
                else None
            | _ \<Rightarrow> None))"
proof (cases "type n = Scalar")
  case False
  then show ?thesis by (simp add: toBool_eq)
next
  case sc: True
  let ?s = "scalarValue n"
  have T: "(map tolower ?s \<in> {''yes'', ''true'', ''on''}) = (map tolower ?s \<in> {''true'', ''yes'', ''on''})"
    by (simp only: insert_iff empty_iff simp_thms) blast
  have F: "(map tolower ?s \<in> {''no'', ''false'', ''off''}) = (map tolower ?s \<in> {''false'', ''no'', ''off''})"
    by (simp only: insert_iff empty_iff simp_thms) blast
  have N: "isNullText ?s \<Longrightarrow> map tolower ?s \<notin> {''true'', ''yes'', ''on''} \<and>
      map tolower ?s \<notin> {''false'', ''no'', ''off''}"
    using lower_null_disj [of ?s] by simp
  show ?thesis
  proof (cases "\<exists>l. stol ?s = Some (l, length ?s)")
    case True
    then obtain l where "stol ?s = Some (l, length ?s)" by blast
    then obtain c where "c \<in> set ?s" "isdigit c" using stol_has_digit by blast
    then have "map tolower ?s \<notin> {''true'', ''yes'', ''on'', ''false'', ''no'', ''off''}"
      by (intro no_digit_lit)
    then have "toBool n = None" unfolding toBool_eq by simp
    moreover have "deduceType strtod ?s = Long (fst (the (stol ?s)))"
      unfolding deduceType_chain using True by simp
    ultimately show ?thesis using sc by simp
  next
    case nl: False
    show ?thesis
    proof (cases "\<exists>d. stod strtod ?s = Some (d, length ?s)")
      case True
      then have "deduceType strtod ?s = Double (fst (the (stod strtod ?s)))"
        unfolding deduceType_chain using nl by simp
      then show ?thesis using sc by (simp add: toBool_eq)
    next
      case nd: False
      have D: "deduceType strtod ?s =
          (if map tolower ?s \<in> {''true'', ''yes'', ''on''} then Bool True
           else if map tolower ?s \<in> {''false'', ''no'', ''off''} then Bool False
           else if isNullText ?s then Monostate
           else String ?s)"
        unfolding deduceType_chain T F isNullText_def using nl nd by simp
      show ?thesis
        unfolding D toBool_eq using sc by simp
    qed
  qed
qed

lemma toDouble_c_str:
  "toDouble strtod n =
     (if type n \<noteq> Scalar \<or> isNullText (scalarValue n) then None
      else if NUL \<in> set (scalarValue n)
      then (case strtod (c_str (scalarValue n)) of
              (d, e, r) \<Rightarrow> if \<not> r \<and> e = length (c_str (scalarValue n)) then Some d else None)
      else (case stod strtod (scalarValue n) of
              Some (d, pos) \<Rightarrow> if pos = length (scalarValue n) then Some d else None
            | None \<Rightarrow> None))"
proof (cases "NUL \<in> set (scalarValue n)")
  case True
  then show ?thesis
    unfolding toDouble_def Let_def nulltest isScalar_def by simp
next
  case False
  then show ?thesis using toDouble_eq [of n strtod] by simp
qed

text \<open>
  C9, as amended. \<open>toInt\<close> gives a value only on text that \<open>deduceType\<close> types as an
  integer, with the same value, but \<^verbatim>\<open>from_chars\<close> takes neither leading white space nor a plus
  sign, so on integer text that begins with either the accessor gives no value. \<open>toBool\<close>
  gives a value exactly on the two sets of boolean literals, which is the boolean that
  \<open>deduceType\<close> gives whenever it gives one; on text that the classifier types as an integer,
  as null or as a string it gives none. \<open>toDouble\<close> reads the text as a C string, up to its
  first null character: it gives a value exactly on text outside the null set whose C string
  \<^verbatim>\<open>strtod\<close> converts as a whole without a range error. On text without a null character
  that is the text that \<^verbatim>\<open>stod\<close> reads as a whole, whether or not the classifier has typed
  it as an integer before. All three give no value on a node that is not a scalar and on
  the null set of the classifier.
\<close>

theorem typed_accessors_vs_classifier:
  "toInt n =
     (if type n \<noteq> Scalar \<or> isNullText (scalarValue n) then None
      else (case deduceType strtod (scalarValue n) of
              Long v \<Rightarrow>
                if isspace (front (scalarValue n)) \<or> front (scalarValue n) = CHR ''+'' then None
                else Some v
            | _ \<Rightarrow> None))
   \<and> toBool n =
     (if type n \<noteq> Scalar then None
      else if map tolower (scalarValue n) \<in> {''true'', ''yes'', ''on''} then Some True
      else if map tolower (scalarValue n) \<in> {''false'', ''no'', ''off''} then Some False
      else None)
   \<and> toBool n =
     (if type n \<noteq> Scalar then None
      else (case deduceType strtod (scalarValue n) of
              Bool b \<Rightarrow> Some b
            | Double d \<Rightarrow>
                if map tolower (scalarValue n) \<in> {''true'', ''yes'', ''on''} then Some True
                else if map tolower (scalarValue n) \<in> {''false'', ''no'', ''off''} then Some False
                else None
            | _ \<Rightarrow> None))
   \<and> toDouble strtod n =
     (if type n \<noteq> Scalar \<or> isNullText (scalarValue n) then None
      else if NUL \<in> set (scalarValue n)
      then (case strtod (c_str (scalarValue n)) of
              (d, e, r) \<Rightarrow> if \<not> r \<and> e = length (c_str (scalarValue n)) then Some d else None)
      else (case stod strtod (scalarValue n) of
              Some (d, pos) \<Rightarrow> if pos = length (scalarValue n) then Some d else None
            | None \<Rightarrow> None))
   \<and> (type n \<noteq> Scalar \<or> isNullText (scalarValue n) \<longrightarrow>
        toBool n = None \<and> toInt n = None \<and> toDouble strtod n = None)"
proof -
  have 5: "toBool n = None \<and> toInt n = None \<and> toDouble strtod n = None"
    if "type n \<noteq> Scalar \<or> isNullText (scalarValue n)"
    using that by (rule all_none)
  show ?thesis
    apply (intro conjI impI)
        apply (rule toInt_eq)
       apply (rule toBool_eq)
      apply (rule toBool_classifier)
     apply (rule toDouble_c_str)
    apply (erule 5 [THEN conjunct1])
    apply (erule 5 [THEN conjunct2, THEN conjunct1])
    apply (erule 5 [THEN conjunct2, THEN conjunct2])
    done
qed

text \<open>
  The theorem at the scalars \<open>42\<close> and \<open>null\<close>, and at a scalar with a null character
  in front of \<open>abc\<close>, for a \<^verbatim>\<open>strtod\<close> that converts nothing.
\<close>

theorem typed_accessors_vs_classifier_witness:
  "NUL \<notin> set ''42'' \<and> toInt (YamlNode Scalar Plain ''42'' [] []) = Some 42
   \<and> isNullText ''null''
   \<and> toBool (YamlNode Scalar Plain ''null'' [] []) = None
   \<and> toInt (YamlNode Scalar Plain ''null'' [] []) = None
   \<and> (\<forall>strtod :: unit strtod_fn. toDouble strtod (YamlNode Scalar Plain ''null'' [] []) = None)
   \<and> toDouble (\<lambda>s. ((), 0, False)) (YamlNode Scalar Plain [NUL, CHR ''a'', CHR ''b'', CHR ''c''] [] [])
        = Some ()"
proof -
  have n: "isNullText ''null''" by (simp add: isNullText_def tolower_def)
  have i: "toInt (YamlNode Scalar Plain ''42'' [] []) = Some 42"
    by (simp add: toInt_def isScalar_def iequals_map tolower_def from_chars_def front_def
        isdigit_def decimal_def digit_val_def LLONG_MIN_def LLONG_MAX_def)
  have a: "toBool (YamlNode Scalar Plain ''null'' [] []) = None
      \<and> toInt (YamlNode Scalar Plain ''null'' [] []) = None
      \<and> toDouble strtod (YamlNode Scalar Plain ''null'' [] []) = None" for strtod :: "unit strtod_fn"
    using typed_accessors_vs_classifier [of "YamlNode Scalar Plain ''null'' [] []" strtod] n
    by simp
  have z: "\<not> isNullText [NUL, CHR ''a'', CHR ''b'', CHR ''c'']"
    by (simp add: isNullText_def tolower_def)
  have d: "toDouble (\<lambda>s. ((), 0, False)) (YamlNode Scalar Plain [NUL, CHR ''a'', CHR ''b'', CHR ''c''] [] [])
        = Some ()"
    using typed_accessors_vs_classifier
      [of "YamlNode Scalar Plain [NUL, CHR ''a'', CHR ''b'', CHR ''c''] [] []" "\<lambda>s. ((), 0, False)"] z
    by (simp add: c_str_def)
  show ?thesis using n i a d by simp
qed

text \<open>
  C9 as stated fails: the classifier types \<open>+42\<close> as the integer 42, and \<open>toInt\<close> gives no
  value on it.
\<close>

theorem toInt_rejects_plus_sign:
  "toInt (YamlNode Scalar Plain ''+42'' [] []) = None
   \<and> (\<forall>strtod :: unit strtod_fn. deduceType strtod ''+42'' = Long 42)"
proof -
  have 1: "from_chars ''+42'' = (None, 0)"
    by (simp add: from_chars_def front_def isdigit_def)
  have 2: "stol ''+42'' = Some (42, 3)"
    by (simp add: stol_def front_def isdigit_def isspace_def decimal_def digit_val_def
        LONG_MIN_def LONG_MAX_def)
  have 3: "\<not> isNullText ''+42''"
    by (simp add: isNullText_def)
  have "toInt (YamlNode Scalar Plain ''+42'' [] []) = None"
    using 1 3 unfolding toInt_def Let_def nulltest isScalar_def by simp
  moreover have "deduceType strtod ''+42'' = Long 42" for strtod :: "unit strtod_fn"
    using 2 by (simp add: deduceType_def)
  ultimately show ?thesis by simp
qed

section \<open>Properties of the query layer\<close>

lemma index_key_None: "index_key None key = None"
  by (simp add: index_key_def is_map_def)

lemma index_idx_None: "index_idx None idx = None"
  by (simp add: index_idx_def is_seq_def)

lemma at_path_loop_None: "at_path_loop p None = None"
proof (induction "length p" arbitrary: p rule: less_induct)
  case less
  show ?case
  proof (cases "p = []")
    case True
    then show ?thesis by (subst at_path_loop.simps) simp
  next
    case ne: False
    show ?thesis
    proof (cases "hd p = CHR ''.''")
      case True
      have "length (tl p) < length p" using ne by (cases p) auto
      then have "at_path_loop (tl p) None = None" by (rule less)
      with ne True show ?thesis by (subst at_path_loop.simps) simp
    next
      case nd: False
      show ?thesis
      proof (cases "dropWhile in_token p \<noteq> [] \<and> hd (dropWhile in_token p) = CHR ''[''")
        case True
        with ne nd show ?thesis
          by (subst at_path_loop.simps) (simp add: Let_def index_idx_None index_key_None)
      next
        case False
        have "length (dropWhile in_token p) < length p"
          using ne nd False by (rule length_dropWhile_in_token)
        then have "at_path_loop (dropWhile in_token p) None = None" by (rule less)
        with ne nd False show ?thesis
          by (subst at_path_loop.simps) (auto simp add: Let_def index_key_None)
      qed
    qed
  qed
qed

lemma value_at_eq:
  "value_at strtod narrow view path def =
     Inr (case at_path view path of
            None \<Rightarrow> def
          | Some n \<Rightarrow>
              (case def of
                 TString _ \<Rightarrow> if type n = Scalar then TString (scalarValue n) else def
               | TCharPtr _ \<Rightarrow> if type n = Scalar then TCharPtr (c_str (scalarValue n)) else def
               | TBool _ \<Rightarrow> (case toBool n of Some b \<Rightarrow> TBool b | None \<Rightarrow> def)
               | TIntegral signed bits _ \<Rightarrow>
                   (case toInt n of
                      Some i \<Rightarrow> TIntegral signed bits (static_cast_int signed bits i)
                    | None \<Rightarrow> def)
               | TFloating _ \<Rightarrow>
                   (case toDouble strtod n of Some d \<Rightarrow> TFloating (narrow d) | None \<Rightarrow> def)
               | TOther \<Rightarrow> def))"
proof (cases "at_path view path")
  case None
  then show ?thesis by (simp add: value_at_def)
next
  case (Some n)
  then show ?thesis
    by (cases def)
       (simp_all add: value_at_def is_scalar_def as_str_def asString_def isScalar_def
          to_bool_def to_int_def to_double_def split: option.splits)
qed

lemma at_path_missing_key:
  assumes "token \<noteq> []" "list_all in_token token" "rest = [] \<or> \<not> in_token (hd rest)"
    and "index_key v token = None"
  shows "at_path v (token @ rest) = None"
proof -
  have ia: "\<forall>c\<in>set token. in_token c" using assms(2) by (simp add: list_all_iff)
  have tw: "takeWhile in_token (token @ rest) = token"
  proof (cases rest)
    case Nil
    with ia show ?thesis by simp
  next
    case (Cons r rs)
    with assms(3) have "\<not> in_token r" by simp
    with ia Cons show ?thesis by (simp add: takeWhile_tail)
  qed
  have hd: "hd (token @ rest) \<noteq> CHR ''.''"
    using assms(1) ia by (cases token) (auto simp: in_token_def)
  show ?thesis
    unfolding at_path_def
    using assms(1,4) tw hd by (subst at_path_loop.simps) (simp add: Let_def)
qed

lemma at_path_bad_index:
  assumes "list_all isdigit ds" "rest = [] \<or> (hd rest \<noteq> CHR '']'' \<and> \<not> isdigit (hd rest))"
  shows "at_path v (CHR ''['' # ds @ rest) = None"
proof -
  have ia: "\<forall>c\<in>set ds. isdigit c" using assms(1) by (simp add: list_all_iff)
  have dw: "dropWhile isdigit (ds @ rest) = rest"
  proof (cases rest)
    case Nil
    with ia show ?thesis by simp
  next
    case (Cons r rs)
    with assms(2) have "\<not> isdigit r" by simp
    with ia Cons show ?thesis by (simp add: dropWhile_append)
  qed
  have r: "rest = [] \<or> hd rest \<noteq> CHR '']''" using assms(2) by blast
  show ?thesis
    unfolding at_path_def
    using dw r by (subst at_path_loop.simps) (auto simp add: Let_def in_token_def)
qed

lemma resolve_None: "resolve None ss = None"
proof (cases ss)
  case Nil
  then show ?thesis by simp
next
  case (Cons a rest)
  then show ?thesis by (cases a) (simp_all add: index_key_None index_idx_None)
qed

lemma resolve_append:
  "resolve v (ss1 @ ss2) = (case resolve v ss1 of None \<Rightarrow> None | Some n \<Rightarrow> resolve (Some n) ss2)"
proof (induction v ss1 rule: resolve.induct)
  case (1 v)
  show ?case by (cases v) (simp_all add: resolve_None)
next
  case (2 v k ss)
  then show ?case by (cases "index_key v k") simp_all
next
  case (3 v i ss)
  then show ?case by (cases "index_idx v i") simp_all
qed

lemma at_path_loop_resolve:
  "at_path_loop p cur = (case path_steps p of None \<Rightarrow> None | Some ss \<Rightarrow> resolve cur ss)"
proof (induction "length p" arbitrary: p cur rule: less_induct)
  case less
  show ?case
  proof (cases "p = []")
    case True
    then show ?thesis
      by (subst at_path_loop.simps, subst path_steps.simps) simp
  next
    case ne: False
    show ?thesis
    proof (cases "hd p = CHR ''.''")
      case True
      have "length (tl p) < length p" using ne by (cases p) auto
      then have "at_path_loop (tl p) cur =
          (case path_steps (tl p) of None \<Rightarrow> None | Some ss \<Rightarrow> resolve cur ss)"
        by (rule less)
      with ne True show ?thesis
        by (subst at_path_loop.simps, subst path_steps.simps) simp
    next
      case nd: False
      define token where "token = takeWhile in_token p"
      define p1 where "p1 = dropWhile in_token p"
      define cur1 where "cur1 = (if token \<noteq> [] then index_key cur token else cur)"
      define keys where "keys = (if token \<noteq> [] then [Key token] else [])"
      have keys: "resolve cur (keys @ ss) =
          (if token \<noteq> [] \<and> cur1 = None then None else resolve cur1 ss)" for ss
        unfolding keys_def cur1_def
        by (cases "index_key cur token") (simp_all add: resolve_None)
      show ?thesis
      proof (cases "p1 \<noteq> [] \<and> hd p1 = CHR ''[''")
        case br: True
        define idx where "idx = path_index (takeWhile isdigit (tl p1))"
        define p3 where "p3 = dropWhile isdigit (tl p1)"
        have L: "at_path_loop p cur =
            (if token \<noteq> [] \<and> cur1 = None then None
             else if p3 = [] \<or> hd p3 \<noteq> CHR '']'' then None
             else (case index_idx cur1 idx of
                     None \<Rightarrow> None
                   | Some n \<Rightarrow> at_path_loop (tl p3) (Some n)))"
          unfolding token_def p1_def cur1_def idx_def p3_def
          using ne nd br [unfolded p1_def]
          by (subst at_path_loop.simps) (simp add: Let_def)
        have R: "path_steps p =
            (if p3 = [] \<or> hd p3 \<noteq> CHR '']'' then None
             else (case path_steps (tl p3) of
                     None \<Rightarrow> None
                   | Some ss \<Rightarrow> Some (keys @ Index idx # ss)))"
          unfolding token_def p1_def keys_def idx_def p3_def
          using ne nd br [unfolded p1_def]
          by (subst path_steps.simps) (simp add: Let_def)
        show ?thesis
        proof (cases "p3 = [] \<or> hd p3 \<noteq> CHR '']''")
          case True
          then show ?thesis unfolding L R by simp
        next
          case ok: False
          have "p1 \<noteq> []" using br by simp
          then have "length (tl (dropWhile isdigit (tl p1))) < length p1"
            by (rule length_dropWhile_tl)
          moreover have "length p1 \<le> length p"
            unfolding p1_def by (rule length_dropWhile_le)
          ultimately have "length (tl p3) < length p" unfolding p3_def by simp
          then have IH: "at_path_loop (tl p3) c =
              (case path_steps (tl p3) of None \<Rightarrow> None | Some ss \<Rightarrow> resolve c ss)" for c
            by (rule less)
          show ?thesis
          proof (cases "token \<noteq> [] \<and> cur1 = None")
            case True
            then show ?thesis
              unfolding L R using ok by (simp add: keys split: option.splits)
          next
            case False
            then show ?thesis
              unfolding L R using ok
              by (cases "index_idx cur1 idx"; cases "path_steps (tl p3)")
                 (auto simp add: keys IH)
          qed
        qed
      next
        case nb: False
        have L: "at_path_loop p cur =
            (if token \<noteq> [] \<and> cur1 = None then None else at_path_loop p1 cur1)"
          unfolding token_def p1_def cur1_def
          by (subst at_path_loop.simps)
             (simp only: Let_def ne nd nb [unfolded p1_def] if_False)
        have R: "path_steps p =
            (case path_steps p1 of None \<Rightarrow> None | Some ss \<Rightarrow> Some (keys @ ss))"
          unfolding token_def p1_def keys_def
          by (subst path_steps.simps)
             (simp only: Let_def ne nd nb [unfolded p1_def] if_False)
        have "length p1 < length p"
          unfolding p1_def using ne nd nb [unfolded p1_def] by (rule length_dropWhile_in_token)
        then have IH: "at_path_loop p1 c =
            (case path_steps p1 of None \<Rightarrow> None | Some ss \<Rightarrow> resolve c ss)" for c
          by (rule less)
        show ?thesis
          unfolding L R
          by (cases "path_steps p1") (auto simp add: keys IH)
      qed
    qed
  qed
qed

text \<open>
  C10, as amended. The query layer has no failing outcome. \<open>value_at\<close> always returns a
  value: the default when the path gives the empty view or the coercion gives nothing, the
  coerced scalar otherwise. Key lookup gives the empty view on anything but a mapping that
  holds the key, and indexing gives it on anything but a sequence with the index in range.
  A path is resolved step by step through the keys and indices it denotes: it gives the
  empty view when a bracket is not closed after its digits, and from the first step on that
  gives the empty view, whatever follows. But a bracket pair with no digit is the index 0
  and an index is taken modulo \<open>2 ^ 64\<close>, so such paths resolve.
\<close>

theorem query_layer_total:
  "value_at strtod narrow view path dflt =
     Inr (case at_path view path of
            None \<Rightarrow> dflt
          | Some n \<Rightarrow>
              (case dflt of
                 TString _ \<Rightarrow> if type n = Scalar then TString (scalarValue n) else dflt
               | TCharPtr _ \<Rightarrow> if type n = Scalar then TCharPtr (c_str (scalarValue n)) else dflt
               | TBool _ \<Rightarrow> (case toBool n of Some b \<Rightarrow> TBool b | None \<Rightarrow> dflt)
               | TIntegral signed bits _ \<Rightarrow>
                   (case toInt n of
                      Some i \<Rightarrow> TIntegral signed bits (static_cast_int signed bits i)
                    | None \<Rightarrow> dflt)
               | TFloating _ \<Rightarrow>
                   (case toDouble strtod n of Some d \<Rightarrow> TFloating (narrow d) | None \<Rightarrow> dflt)
               | TOther \<Rightarrow> dflt))
   \<and> index_key v key =
       (case v of
          None \<Rightarrow> None
        | Some n \<Rightarrow> if type n = Mapping then map_of (mapping n) key else None)
   \<and> index_idx v idx =
       (case v of
          None \<Rightarrow> None
        | Some n \<Rightarrow>
            if type n = Sequence \<and> idx < length (sequence n) then Some (sequence n ! idx)
            else None)
   \<and> at_path view path =
       (case path_steps path of None \<Rightarrow> None | Some steps \<Rightarrow> resolve view steps)
   \<and> resolve v (ss1 @ ss2) =
       (case resolve v ss1 of None \<Rightarrow> None | Some n \<Rightarrow> resolve (Some n) ss2)
   \<and> resolve None ss2 = None"
proof -
  have 1: "index_key v key =
       (case v of
          None \<Rightarrow> None
        | Some n \<Rightarrow> if type n = Mapping then map_of (mapping n) key else None)"
    by (simp add: index_key_def is_map_def split: option.splits)
  have 2: "index_idx v idx =
       (case v of
          None \<Rightarrow> None
        | Some n \<Rightarrow>
            if type n = Sequence \<and> idx < length (sequence n) then Some (sequence n ! idx)
            else None)"
    by (simp add: index_idx_def is_seq_def split: option.splits)
  have 3: "at_path view path =
       (case path_steps path of None \<Rightarrow> None | Some steps \<Rightarrow> resolve view steps)"
    unfolding at_path_def by (rule at_path_loop_resolve)
  show ?thesis
    apply (intro conjI)
         apply (rule value_at_eq)
        apply (rule 1)
       apply (rule 2)
      apply (rule 3)
     apply (rule resolve_append)
    apply (rule resolve_None)
    done
qed

text \<open>
  The theorem on the tree of the path-lookup test, \<^verbatim>\<open>a: {b: [1, 2], c: three}\<close>: the path
  \<open>a.b[1]\<close> resolves to the second element, \<open>a.d\<close> misses a key at its second step,
  \<open>a.b[5]\<close> is out of range at its third step, \<open>a.b[1\<close> has a bracket that is not
  closed, and \<open>value_at\<close> returns the default 99 on \<open>a.d\<close>.
\<close>

theorem query_layer_total_witness:
  "\<forall>(strtod :: unit strtod_fn) (narrow :: unit \<Rightarrow> unit).
     at_path (Some (YamlNode Mapping Plain [] [] [(''a'', YamlNode Mapping Plain [] []
        [(''b'', YamlNode Sequence Plain []
            [YamlNode Scalar Plain ''1'' [] [], YamlNode Scalar Plain ''2'' [] []] []),
         (''c'', YamlNode Scalar Plain ''three'' [] [])])])) ''a.b[1]''
       = Some (YamlNode Scalar Plain ''2'' [] [])
   \<and> at_path (Some (YamlNode Mapping Plain [] [] [(''a'', YamlNode Mapping Plain [] []
        [(''b'', YamlNode Sequence Plain []
            [YamlNode Scalar Plain ''1'' [] [], YamlNode Scalar Plain ''2'' [] []] []),
         (''c'', YamlNode Scalar Plain ''three'' [] [])])])) ''a.d'' = None
   \<and> at_path (Some (YamlNode Mapping Plain [] [] [(''a'', YamlNode Mapping Plain [] []
        [(''b'', YamlNode Sequence Plain []
            [YamlNode Scalar Plain ''1'' [] [], YamlNode Scalar Plain ''2'' [] []] []),
         (''c'', YamlNode Scalar Plain ''three'' [] [])])])) ''a.b[5]'' = None
   \<and> at_path (Some (YamlNode Mapping Plain [] [] [(''a'', YamlNode Mapping Plain [] []
        [(''b'', YamlNode Sequence Plain []
            [YamlNode Scalar Plain ''1'' [] [], YamlNode Scalar Plain ''2'' [] []] []),
         (''c'', YamlNode Scalar Plain ''three'' [] [])])])) ''a.b[1'' = None
   \<and> value_at strtod narrow (Some (YamlNode Mapping Plain [] [] [(''a'', YamlNode Mapping Plain [] []
        [(''b'', YamlNode Sequence Plain []
            [YamlNode Scalar Plain ''1'' [] [], YamlNode Scalar Plain ''2'' [] []] []),
         (''c'', YamlNode Scalar Plain ''three'' [] [])])])) ''a.d''
        (TIntegral True 32 99) = Inr (TIntegral True 32 99)"
proof (intro allI)
  fix strtod :: "unit strtod_fn" and narrow :: "unit \<Rightarrow> unit"
  let ?root = "YamlNode Mapping Plain [] [] [(''a'', YamlNode Mapping Plain [] []
        [(''b'', YamlNode Sequence Plain []
            [YamlNode Scalar Plain ''1'' [] [], YamlNode Scalar Plain ''2'' [] []] []),
         (''c'', YamlNode Scalar Plain ''three'' [] [])])]"
  note T = query_layer_total [where strtod = strtod and narrow = narrow and view = "Some ?root"]
  note P = T [THEN conjunct2, THEN conjunct2, THEN conjunct2, THEN conjunct1]
  note ev = path_steps.simps Let_def in_token_def isdigit_def path_index_def digit_val_def
    index_key_def is_map_def index_idx_def is_seq_def
  have 1: "at_path (Some ?root) ''a.b[1]'' = Some (YamlNode Scalar Plain ''2'' [] [])"
    by (subst P) (simp add: ev)
  have 2: "at_path (Some ?root) ''a.d'' = None"
    by (subst P) (simp add: ev)
  have 3: "at_path (Some ?root) ''a.b[5]'' = None"
    by (subst P) (simp add: ev)
  have 4: "at_path (Some ?root) ''a.b[1'' = None"
    by (subst P) (simp add: ev)
  have 5: "value_at strtod narrow (Some ?root) ''a.d'' (TIntegral True 32 99)
      = Inr (TIntegral True 32 99)"
    by (subst conjunct1 [OF T]) (simp add: 2)
  show "at_path (Some ?root) ''a.b[1]'' = Some (YamlNode Scalar Plain ''2'' [] [])
   \<and> at_path (Some ?root) ''a.d'' = None
   \<and> at_path (Some ?root) ''a.b[5]'' = None
   \<and> at_path (Some ?root) ''a.b[1'' = None
   \<and> value_at strtod narrow (Some ?root) ''a.d'' (TIntegral True 32 99) = Inr (TIntegral True 32 99)"
    using 1 2 3 4 5 by simp
qed

text \<open>
  C10 as stated fails on index syntax: on the tree of \<^verbatim>\<open>a: [1, 2]\<close> the path \<open>a[]\<close>,
  which has no index between its brackets, resolves to the first element, and the path
  \<open>a[18446744073709551617]\<close>, whose index is far out of range, wraps to 1 and resolves to
  the second element.
\<close>

theorem at_path_accepts_bad_index:
  "at_path (Some (YamlNode Mapping Plain [] []
        [(''a'', YamlNode Sequence Plain []
            [YamlNode Scalar Plain ''1'' [] [], YamlNode Scalar Plain ''2'' [] []] [])])) ''a[]''
     = Some (YamlNode Scalar Plain ''1'' [] [])
   \<and> at_path (Some (YamlNode Mapping Plain [] []
        [(''a'', YamlNode Sequence Plain []
            [YamlNode Scalar Plain ''1'' [] [], YamlNode Scalar Plain ''2'' [] []] [])]))
        ''a[18446744073709551617]''
     = Some (YamlNode Scalar Plain ''2'' [] [])"
  by (simp add: at_path_def at_path_loop.simps Let_def in_token_def index_key_def is_map_def
      index_idx_def is_seq_def path_index_def isdigit_def digit_val_def)

section \<open>Properties of the block scalar extractor\<close>

lemma find_if_None: "find_if p xs = None \<longleftrightarrow> (\<forall>x\<in>set xs. \<not> p x)"
  by (induction xs) (auto split: option.splits)

lemma find_if_Some:
  "find_if p xs = Some j \<Longrightarrow> j = length (takeWhile (\<lambda>x. \<not> p x) xs) \<and> j < length xs"
proof (induction xs arbitrary: j)
  case Nil
  then show ?case by simp
next
  case (Cons x xs)
  show ?case
  proof (cases "p x")
    case True
    with Cons.prems show ?thesis by simp
  next
    case False
    with Cons.prems obtain i where i: "find_if p xs = Some i" "j = Suc i"
      by (auto split: option.splits)
    from Cons.IH [OF i(1)] i(2) False show ?thesis by simp
  qed
qed

lemma find_last_not_of_None:
  "find_last_not_of chars s = None \<longleftrightarrow> (\<forall>c\<in>set s. c \<in> set chars)"
proof (cases "find_if (\<lambda>c. c \<notin> set chars) (rev s)")
  case None
  then have "\<forall>c\<in>set (rev s). \<not> c \<notin> set chars" by (simp only: find_if_None)
  with None show ?thesis by (simp add: find_last_not_of_def)
next
  case (Some a)
  then have "\<not> (\<forall>c\<in>set (rev s). \<not> c \<notin> set chars)"
    using find_if_None [of "\<lambda>c. c \<notin> set chars" "rev s"] by simp
  with Some show ?thesis by (simp add: find_last_not_of_def)
qed

lemma find_last_not_of_Some:
  assumes "find_last_not_of chars s = Some i"
  shows "take (i + 1) s = rev (dropWhile (\<lambda>c. c \<in> set chars) (rev s))"
proof -
  from assms obtain j where j: "find_if (\<lambda>c. c \<notin> set chars) (rev s) = Some j"
    and i: "i = length s - 1 - j"
    unfolding find_last_not_of_def by (auto split: option.splits)
  from find_if_Some [OF j]
  have jl: "j = length (takeWhile (\<lambda>c. c \<in> set chars) (rev s))" and jlt: "j < length s"
    by simp_all
  have "i + 1 = length s - j" using i jlt by simp
  then have "take (i + 1) s = take (length (rev s) - j) (rev (rev s))" by simp
  also have "\<dots> = rev (drop j (rev s))" by (rule rev_drop [symmetric])
  also have "drop j (rev s) = dropWhile (\<lambda>c. c \<in> set chars) (rev s)"
    unfolding jl by (rule dropWhile_eq_drop [symmetric])
  finally show ?thesis .
qed

lemma applyChomp_strip: "applyChomp t (CHR ''-'') = stripNL t"
proof (cases "find_last_not_of [NL] t")
  case None
  then have "\<forall>c\<in>set t. c = NL" by (simp add: find_last_not_of_None)
  then have "dropWhile (\<lambda>c. c = NL) (rev t) = []" by simp
  with None show ?thesis by (simp add: applyChomp_def stripNL_def)
next
  case (Some i)
  then have ne: "t \<noteq> []" by (auto simp: find_last_not_of_def)
  from find_last_not_of_Some [OF Some] have "take (i + 1) t = stripNL t"
    by (simp add: stripNL_def)
  with Some ne show ?thesis by (simp add: applyChomp_def substr_def)
qed

lemma applyChomp_keep:
  assumes "t = [] \<or> (\<exists>c\<in>set t. c \<noteq> NL)"
  shows "applyChomp t (CHR ''+'') = t"
proof (cases "t = []")
  case True
  then show ?thesis by (simp add: applyChomp_def)
next
  case False
  with assms have "\<exists>c\<in>set t. c \<noteq> NL" by simp
  then have "find_last_not_of [NL] t \<noteq> None" by (simp add: find_last_not_of_None)
  then obtain i where "find_last_not_of [NL] t = Some i" by auto
  with False show ?thesis by (simp add: applyChomp_def)
qed

lemma applyChomp_clip:
  assumes "t = [] \<or> (\<exists>c\<in>set t. c \<noteq> NL)" "chomp \<noteq> CHR ''-''" "chomp \<noteq> CHR ''+''"
  shows "applyChomp t chomp = (if t = [] then [] else stripNL t @ [NL])"
proof (cases "t = []")
  case True
  then show ?thesis by (simp add: applyChomp_def)
next
  case False
  with assms have "\<exists>c\<in>set t. c \<noteq> NL" by simp
  then have "find_last_not_of [NL] t \<noteq> None" by (simp add: find_last_not_of_None)
  then obtain i where i: "find_last_not_of [NL] t = Some i" by auto
  from find_last_not_of_Some [OF i] have "take (i + 1) t = stripNL t"
    by (simp add: stripNL_def)
  with i False assms(2,3) show ?thesis by (simp add: applyChomp_def substr_def)
qed

lemma getline_no_delim: "getline delim s = (Some ln, s1) \<Longrightarrow> delim \<notin> set ln"
  by (auto simp: getline_def Let_def split: if_splits dest: set_takeWhileD)

lemma set_stripComment: "set (stripComment ln) \<subseteq> set ln"
  by (auto simp: stripComment_def split: option.splits dest: in_set_takeD)

lemma getIndent_loop_spaces:
  "getIndent_loop cs lineNum i = Inr n \<Longrightarrow>
     i \<le> n \<and> nat (n - i) \<le> length cs \<and> (\<forall>c\<in>set (take (nat (n - i)) cs). c = SP)"
proof (induction cs arbitrary: i)
  case Nil
  then show ?case by simp
next
  case (Cons c cs)
  show ?case
  proof (cases "c = SP")
    case True
    with Cons.prems have "getIndent_loop cs lineNum (i + 1) = Inr n" by simp
    from Cons.IH [OF this] have h: "i + 1 \<le> n" "nat (n - (i + 1)) \<le> length cs"
      "\<forall>c\<in>set (take (nat (n - (i + 1))) cs). c = SP" by simp_all
    have "nat (n - i) = Suc (nat (n - (i + 1)))" using h(1) by simp
    with h True show ?thesis by simp
  next
    case False
    with Cons.prems have "n = i" by (simp split: if_splits)
    then show ?thesis by simp
  qed
qed

lemma getIndent_spaces:
  "getIndent ln lineNum = Inr n \<Longrightarrow>
     0 \<le> n \<and> nat n \<le> length ln \<and> (\<forall>c\<in>set (take (nat n) ln). c = SP)"
  unfolding getIndent_def using getIndent_loop_spaces [of ln lineNum 0 n] by simp

lemma trim_nonempty: "trim s \<noteq> [] \<Longrightarrow> \<exists>c\<in>set s. c \<noteq> SP \<and> c \<noteq> TAB"
proof -
  assume "trim s \<noteq> []"
  then have "find_first_not_of [SP, TAB] s \<noteq> None"
    by (cases "find_first_not_of [SP, TAB] s") (simp_all add: trim_def)
  then show ?thesis
    by (simp add: find_first_not_of_def find_if_None)
qed

lemma content_line_has_char:
  assumes g: "getline NL input = (Some line0, input1)"
    and i: "getIndent (stripComment line0) lineNum = Inr nextIndent"
    and t: "trim (stripComment line0) \<noteq> []"
  shows "\<exists>c\<in>set (substr_from (stripComment line0) (nat nextIndent)). c \<noteq> NL"
proof -
  let ?L = "stripComment line0"
  from trim_nonempty [OF t] obtain c where c: "c \<in> set ?L" "c \<noteq> SP" "c \<noteq> TAB" by blast
  from getIndent_spaces [OF i] have sp: "\<forall>c\<in>set (take (nat nextIndent) ?L). c = SP" by simp
  have "set ?L = set (take (nat nextIndent) ?L) \<union> set (drop (nat nextIndent) ?L)"
    by (metis append_take_drop_id set_append)
  with c(1,2) sp have cd: "c \<in> set (drop (nat nextIndent) ?L)" by blast
  have "NL \<notin> set line0" using g by (rule getline_no_delim)
  with c(1) set_stripComment [of line0] have "c \<noteq> NL" by blast
  with cd show ?thesis unfolding substr_from_def by blast
qed

lemma parseBlockScalar_loop_inv:
  assumes "parseBlockScalar_loop baseIndent blockLines hasContent minDelta lineNum input
      = Inr (bl, hc, md, ln1, in1)"
    and "hasContent = (blockLines \<noteq> [])"
    and "blockLines \<noteq> [] \<longrightarrow> (\<exists>c\<in>set (hd blockLines). c \<noteq> NL)"
  shows "hc = (bl \<noteq> []) \<and> (bl \<noteq> [] \<longrightarrow> (\<exists>c\<in>set (hd bl). c \<noteq> NL))"
  using assms
proof (induction "remaining input" arbitrary: blockLines hasContent minDelta lineNum input
    rule: less_induct)
  case less
  note e = parseBlockScalar_loop.simps [of baseIndent blockLines hasContent minDelta lineNum input]
  obtain x input1 where g: "getline NL input = (x, input1)" by (cases "getline NL input")
  show ?case
  proof (cases x)
    case None
    with less.prems g show ?thesis unfolding e by auto
  next
    case (Some line0)
    with g have g': "getline NL input = (Some line0, input1)" by simp
    then have rem: "remaining input1 < remaining input" by (rule getline_remaining)
    let ?L = "stripComment line0"
    show ?thesis
    proof (cases "getIndent ?L (lineNum + 1)")
      case (Inl err)
      with less.prems(1) g' show ?thesis unfolding e by simp
    next
      case (Inr nextIndent)
      show ?thesis
      proof (cases "trim ?L = []")
        case True
        let ?bl = "if hasContent then blockLines @ [[]] else blockLines"
        have r: "parseBlockScalar_loop baseIndent ?bl hasContent minDelta (lineNum + 1) input1
            = Inr (bl, hc, md, ln1, in1)"
          using less.prems(1) g' Inr True unfolding e by simp
        have a: "hasContent = (?bl \<noteq> [])" using less.prems(2) by simp
        have b: "?bl \<noteq> [] \<longrightarrow> (\<exists>c\<in>set (hd ?bl). c \<noteq> NL)"
          using less.prems(2,3) by simp
        from less.hyps [OF rem r a b] show ?thesis .
      next
        case ne: False
        show ?thesis
        proof (cases "nextIndent \<le> baseIndent")
          case True
          with less.prems g' Inr ne show ?thesis unfolding e by auto
        next
          case False
          let ?bl = "blockLines @ [substr_from ?L (nat nextIndent)]"
          let ?md = "if nextIndent - baseIndent < minDelta then nextIndent - baseIndent else minDelta"
          have r: "parseBlockScalar_loop baseIndent ?bl True ?md (lineNum + 1) input1
              = Inr (bl, hc, md, ln1, in1)"
            using less.prems(1) g' Inr ne False unfolding e by simp
          have a: "True = (?bl \<noteq> [])" by simp
          have "\<exists>c\<in>set (substr_from ?L (nat nextIndent)). c \<noteq> NL"
            using g' Inr ne by (rule content_line_has_char)
          then have b: "?bl \<noteq> [] \<longrightarrow> (\<exists>c\<in>set (hd ?bl). c \<noteq> NL)"
            using less.prems(3) by (cases blockLines) simp_all
          from less.hyps [OF rem r a b] show ?thesis .
        qed
      qed
    qed
  qed
qed

lemma joinLines_snoc: "joinLines (bl @ [l]) = joinLines bl @ l @ [NL]"
  by (simp add: joinLines_def)

lemma joinLines_last: "bl \<noteq> [] \<Longrightarrow> joinLines bl \<noteq> [] \<and> last (joinLines bl) = NL"
  by (cases bl rule: rev_cases) (simp_all add: joinLines_snoc)

lemma joinLines_has_char:
  "bl \<noteq> [] \<Longrightarrow> \<exists>c\<in>set (hd bl). c \<noteq> NL \<Longrightarrow> \<exists>c\<in>set (joinLines bl). c \<noteq> NL"
  by (cases bl) (auto simp: joinLines_def)

lemma parseBlockScalar_content:
  assumes "parseBlockScalar baseIndent lineNum input = Inr (content, lineNum1, input1)"
  shows "(content = [] \<or> (\<exists>c\<in>set content. c \<noteq> NL)) \<and> (content \<noteq> [] \<longrightarrow> last content = NL)"
proof -
  from assms obtain bl hc md where
    l: "parseBlockScalar_loop baseIndent [] False INT_MAX lineNum input = Inr (bl, hc, md, lineNum1, input1)"
    and c: "content = joinLines bl"
    unfolding parseBlockScalar_def by (auto split: sum.splits)
  from parseBlockScalar_loop_inv [OF l]
  have inv: "bl \<noteq> [] \<longrightarrow> (\<exists>c\<in>set (hd bl). c \<noteq> NL)" by simp
  show ?thesis
  proof (cases "bl = []")
    case True
    then show ?thesis using c by (simp add: joinLines_def)
  next
    case False
    with inv joinLines_has_char joinLines_last show ?thesis unfolding c by blast
  qed
qed

lemma applyChomp_all_newlines:
  assumes "\<forall>c\<in>set t. c = NL"
  shows "applyChomp t chomp = []"
proof (cases "t = []")
  case True
  then show ?thesis by (simp add: applyChomp_def)
next
  case False
  from assms have "find_last_not_of [NL] t = None" by (simp add: find_last_not_of_None)
  with False show ?thesis by (simp add: applyChomp_def)
qed

text \<open>
  C5. On the text that \<open>parseBlockScalar\<close> extracts, \<open>applyChomp\<close> with \<open>-\<close> removes
  all trailing newlines, with \<open>+\<close> returns the text unchanged, and with any other
  indicator (clip) leaves the text without its trailing newlines plus one newline, where an
  extracted text that is not empty does end in a newline. When the loop of the extractor
  ends without a content line, the text is empty and so is the result for every indicator.
  The last three facts give \<open>applyChomp\<close> on any text at all, the folded text of a block
  under \<^verbatim>\<open>>\<close> included: \<open>-\<close> removes all trailing newlines; \<open>+\<close> returns the text
  unchanged and clip the text without its trailing newlines plus one newline, unless the
  text is nothing but newlines, which the extractor never returns, and then the result is
  empty.
\<close>

theorem chomp_of_extracted_text:
  "(parseBlockScalar baseIndent lineNum input = Inr (content, lineNum1, input1) \<longrightarrow>
      applyChomp content (CHR ''-'') = stripNL content
    \<and> applyChomp content (CHR ''+'') = content
    \<and> (chomp \<noteq> CHR ''-'' \<and> chomp \<noteq> CHR ''+'' \<longrightarrow>
         applyChomp content chomp = (if content = [] then [] else stripNL content @ [NL]))
    \<and> (content \<noteq> [] \<longrightarrow> last content = NL))
   \<and> (parseBlockScalar_loop baseIndent [] False INT_MAX lineNum input
         = Inr (blockLines, False, minDelta, lineNum2, input2) \<longrightarrow>
       joinLines blockLines = [] \<and> applyChomp (joinLines blockLines) chomp = [])
   \<and> applyChomp t (CHR ''-'') = stripNL t
   \<and> applyChomp t (CHR ''+'') = (if \<forall>c\<in>set t. c = NL then [] else t)
   \<and> (chomp \<noteq> CHR ''-'' \<and> chomp \<noteq> CHR ''+'' \<longrightarrow>
        applyChomp t chomp = (if \<forall>c\<in>set t. c = NL then [] else stripNL t @ [NL]))"
proof (intro conjI impI)
  assume a: "parseBlockScalar baseIndent lineNum input = Inr (content, lineNum1, input1)"
  note c = parseBlockScalar_content [OF a]
  show "applyChomp content (CHR ''-'') = stripNL content" by (rule applyChomp_strip)
  show "applyChomp content (CHR ''+'') = content" using c by (intro applyChomp_keep) blast
  show "last content = NL" if "content \<noteq> []" using c that by blast
  show "applyChomp content chomp = (if content = [] then [] else stripNL content @ [NL])"
    if "chomp \<noteq> CHR ''-'' \<and> chomp \<noteq> CHR ''+''"
    using c that by (intro applyChomp_clip) blast+
next
  assume l: "parseBlockScalar_loop baseIndent [] False INT_MAX lineNum input
         = Inr (blockLines, False, minDelta, lineNum2, input2)"
  from parseBlockScalar_loop_inv [OF l] have "blockLines = []" by simp
  then show "joinLines blockLines = []" by (simp add: joinLines_def)
  then show "applyChomp (joinLines blockLines) chomp = []" by (simp add: applyChomp_def)
next
  show "applyChomp t (CHR ''-'') = stripNL t" by (rule applyChomp_strip)
  show "applyChomp t (CHR ''+'') = (if \<forall>c\<in>set t. c = NL then [] else t)"
  proof (cases "\<forall>c\<in>set t. c = NL")
    case True
    then show ?thesis by (simp add: applyChomp_all_newlines)
  next
    case False
    then have "applyChomp t (CHR ''+'') = t" by (intro applyChomp_keep) blast
    with False show ?thesis by auto
  qed
  show "applyChomp t chomp = (if \<forall>c\<in>set t. c = NL then [] else stripNL t @ [NL])"
    if h: "chomp \<noteq> CHR ''-'' \<and> chomp \<noteq> CHR ''+''"
  proof (cases "\<forall>c\<in>set t. c = NL")
    case True
    then show ?thesis by (simp add: applyChomp_all_newlines)
  next
    case False
    then have ne: "t \<noteq> []" by auto
    from False h have "applyChomp t chomp = (if t = [] then [] else stripNL t @ [NL])"
      by (intro applyChomp_clip) blast+
    with False ne show ?thesis by auto
  qed
qed

text \<open>
  The theorem on the block under the header \<^verbatim>\<open>k: |\<close> (line 1, indent 0) of the text
  \<^verbatim>\<open>k: |\<close>, \<^verbatim>\<open>  a\<close>, two empty lines, \<^verbatim>\<open>b: 1\<close>, on the empty block under the same
  header at the end of a text, on the folded text \<^verbatim>\<open>a b\<close> and on a text of two newlines.
\<close>

theorem chomp_of_extracted_text_witness:
  "parseBlockScalar 0 1
      \<lparr>buf = ''k: |'' @ [NL] @ ''  a'' @ [NL, NL, NL] @ ''b: 1'' @ [NL], gpos = 5,
       eofbit = False, failbit = False\<rparr>
     = Inr (''a'' @ [NL, NL, NL], 4,
        \<lparr>buf = ''k: |'' @ [NL] @ ''  a'' @ [NL, NL, NL] @ ''b: 1'' @ [NL], gpos = 11,
         eofbit = False, failbit = False\<rparr>)
   \<and> applyChomp (''a'' @ [NL, NL, NL]) (CHR ''-'') = ''a''
   \<and> applyChomp (''a'' @ [NL, NL, NL]) (CHR ''+'') = ''a'' @ [NL, NL, NL]
   \<and> applyChomp (''a'' @ [NL, NL, NL]) SP = ''a'' @ [NL]
   \<and> parseBlockScalar_loop 0 [] False INT_MAX 1
        \<lparr>buf = ''k: |'' @ [NL], gpos = 5, eofbit = False, failbit = False\<rparr>
       = Inr ([], False, INT_MAX, 1,
           \<lparr>buf = ''k: |'' @ [NL], gpos = 5, eofbit = True, failbit = True\<rparr>)
   \<and> applyChomp (joinLines []) (CHR ''+'') = []
   \<and> foldBlock (''a'' @ [NL] @ ''b'' @ [NL, NL]) = ''a b''
   \<and> applyChomp ''a b'' (CHR ''-'') = ''a b''
   \<and> applyChomp ''a b'' (CHR ''+'') = ''a b''
   \<and> applyChomp ''a b'' SP = ''a b'' @ [NL]
   \<and> applyChomp [NL, NL] (CHR ''+'') = []"
proof -
  note ev = parseBlockScalar_def parseBlockScalar_loop.simps getline_def Let_def stripComment_def
    find_char_def getIndent_def trim_def find_first_not_of_def find_last_not_of_def substr_def
    substr_from_def seekg_cur_def joinLines_def
  let ?in = "\<lparr>buf = ''k: |'' @ [NL] @ ''  a'' @ [NL, NL, NL] @ ''b: 1'' @ [NL], gpos = 5,
       eofbit = False, failbit = False\<rparr>"
  let ?out = "\<lparr>buf = ''k: |'' @ [NL] @ ''  a'' @ [NL, NL, NL] @ ''b: 1'' @ [NL], gpos = 11,
         eofbit = False, failbit = False\<rparr>"
  let ?in2 = "\<lparr>buf = ''k: |'' @ [NL], gpos = 5, eofbit = False, failbit = False\<rparr>"
  let ?out2 = "\<lparr>buf = ''k: |'' @ [NL], gpos = 5, eofbit = True, failbit = True\<rparr>"
  have p: "parseBlockScalar 0 1 ?in = Inr (''a'' @ [NL, NL, NL], 4, ?out)"
    by (simp add: ev)
  have l: "parseBlockScalar_loop 0 [] False INT_MAX 1 ?in2 = Inr ([], False, INT_MAX, 1, ?out2)"
    by (simp add: ev)
  have s: "stripNL (''a'' @ [NL, NL, NL]) = ''a''" "stripNL ''a b'' = ''a b''"
    by (simp_all add: stripNL_def)
  have f: "foldBlock (''a'' @ [NL] @ ''b'' @ [NL, NL]) = ''a b''"
    by (simp add: foldBlock_def getlines.simps stringstream_def getline_def Let_def rtrim_def
        find_last_not_of_def substr_def)
  note T = chomp_of_extracted_text [where baseIndent = 0 and lineNum = 1 and input = ?in
      and content = "''a'' @ [NL, NL, NL]" and ?lineNum1.0 = 4 and ?input1.0 = ?out
      and chomp = SP and t = "''a b''"]
  note U = chomp_of_extracted_text [where baseIndent = 0 and lineNum = 1 and input = ?in2
      and blockLines = "[]" and minDelta = INT_MAX and ?lineNum2.0 = 1 and ?input2.0 = ?out2
      and chomp = "CHR ''+''" and t = "[NL, NL]"]
  from T p s have
    "applyChomp (''a'' @ [NL, NL, NL]) (CHR ''-'') = ''a''
     \<and> applyChomp (''a'' @ [NL, NL, NL]) (CHR ''+'') = ''a'' @ [NL, NL, NL]
     \<and> applyChomp (''a'' @ [NL, NL, NL]) SP = ''a'' @ [NL]
     \<and> applyChomp ''a b'' (CHR ''-'') = ''a b''
     \<and> applyChomp ''a b'' (CHR ''+'') = ''a b''
     \<and> applyChomp ''a b'' SP = ''a b'' @ [NL]"
    by simp
  moreover from U l have "applyChomp (joinLines []) (CHR ''+'') = []"
    by blast
  moreover from U have "applyChomp [NL, NL] (CHR ''+'') = []"
    by simp
  ultimately show ?thesis using p l f by blast
qed

section \<open>Properties of the indentation stack machine\<close>

text \<open>The definitions that evaluate a parse of a given text.\<close>

lemmas parse_eval = parse_def parseStream_def stringstream_def parseStream_loop.simps processLine_def
  getline_def Let_def stripComment_def find_char_def getIndent_def trim_def find_first_not_of_def
  find_last_not_of_def substr_def substr_from_def front_def newNode_def mappingLine_def
  sequenceLine_def sequenceItem_def inlineValue_def blockValue_def emptyValue_def quoted_def
  becomeMapping_def becomeSequence_def assign_key_def push_back_def append_scalar_def
  tellg_def seekg_def seekg_cur_def parseBlockScalar_def parseBlockScalar_loop.simps
  joinLines_def applyChomp_def foldBlock_def getlines.simps parseFlowSequence_def
  parseFlowMapping_def flowScalar_def

text \<open>
  The tests of the repository that are enabled and parse a text agree with the model
  (\<^verbatim>\<open>yaml_tests.cpp\<close>: SimpleScalar, SimpleSequence, InlineSequence, SimpleQuoted,
  UnquotedWithColon, LiteralWithEmptyLines, TabsInIndent, InvalidIndent, MissingColon, EmptyKey,
  InvalidFlow).
\<close>

lemma test_SimpleScalar:
  "parse ''value: hello''
     = Inr (YamlNode Mapping Plain [] [] [(''value'', YamlNode Scalar Plain ''hello'' [] [])])"
  by (simp add: parse_eval)

lemma test_SimpleSequence:
  "parse ([NL] @ ''items:'' @ [NL] @ ''  - apple'' @ [NL] @ ''  - banana'' @ [NL] @ ''  - cherry''
      @ [NL] @ ''    '')
     = Inr (YamlNode Mapping Plain [] [] [(''items'', YamlNode Sequence Plain []
         [YamlNode Scalar Plain ''apple'' [] [], YamlNode Scalar Plain ''banana'' [] [],
          YamlNode Scalar Plain ''cherry'' [] []] [])])"
  by (simp add: parse_eval)

lemma test_InlineSequence:
  "parse ''scores: [85, 92.5, 78]''
     = Inr (YamlNode Mapping Plain [] [] [(''scores'', YamlNode Sequence Plain []
         [YamlNode Scalar Plain ''85'' [] [], YamlNode Scalar Plain ''92.5'' [] [],
          YamlNode Scalar Plain ''78'' [] []] [])])"
  by (simp add: parse_eval)

lemma test_SimpleQuoted:
  "parse (''key: '' @ [DQUOTE] @ ''hello: world'' @ [DQUOTE])
     = Inr (YamlNode Mapping Plain [] [] [(''key'', YamlNode Scalar Plain ''hello: world'' [] [])])"
  by (simp add: parse_eval)

lemma test_UnquotedWithColon:
  "parse ''key: hello: world'' = Inl (YamlError AmbiguousColon 1 (-1))"
  by (simp add: parse_eval)

lemma test_LiteralWithEmptyLines:
  "parse ([NL] @ ''notes: |'' @ [NL] @ ''  First line.'' @ [NL] @ [NL]
      @ ''  Third line after empty.'' @ [NL] @ [NL] @ ''  Last line.'' @ [NL] @ ''    '')
     = Inr (YamlNode Mapping Plain [] [] [(''notes'', YamlNode Scalar Literal
         (''First line.'' @ [NL] @ [NL] @ ''Third line after empty.'' @ [NL] @ [NL]
            @ ''Last line.'' @ [NL]) [] [])])"
  by (simp add: parse_eval)

lemma test_TabsInIndent:
  "parse (''key:'' @ [NL] @ [TAB] @ ''value: 1'') = Inl (YamlError TabsInIndentation 2 1)"
  by (simp add: parse_eval)

lemma test_InvalidIndent:
  "parse ([NL] @ ''a: 1'' @ [NL] @ ''  b: 2'' @ [NL] @ ''c: 3'' @ [NL] @ ''    '')
     = Inl (YamlError UnexpectedIndentation 3 (-1))"
  by (simp add: parse_eval)

lemma test_MissingColon:
  "parse ''key value'' = Inl (YamlError MissingColon 1 (-1))"
  by (simp add: parse_eval)

lemma test_EmptyKey:
  "parse '': value'' = Inl (YamlError EmptyKey 1 (-1))"
  by (simp add: parse_eval)

lemma test_InvalidFlow:
  "parse ''map: {a: 1, b}'' = Inl (YamlError AmbiguousColon 1 (-1))"
  by (simp add: parse_eval)

text \<open>
  C1 (the code does not do what the claim says). The line \<^verbatim>\<open>more\<close> has no colon and comes
  right after \<^verbatim>\<open>key: value\<close>, whose plain scalar is the last scalar. The parse fails on
  line 2 at the test of lines 764-766, before the continuation of lines 802-804 is reached.
\<close>

theorem continuation_line_is_rejected:
  "parse (''key: value'' @ [NL] @ ''more'') = Inl (YamlError UnexpectedIndentation 2 (-1))"
  by (simp add: parse_eval)

text \<open>
  C2 (the code does not do what the claim says). On a text whose first line starts with a
  dash, \<open>parse\<close> returns a root of type Sequence.
\<close>

theorem dash_line_makes_root_a_sequence:
  "parse ''- a'' = Inr (YamlNode Sequence Plain [] [YamlNode Scalar Plain ''a'' [] []] [])"
  by (simp add: parse_eval)

text \<open>
  C4 (the code does not do what the claim says). The block under \<^verbatim>\<open>k: |\<close> has the lines
  \<^verbatim>\<open>a\<close> with two spaces and \<^verbatim>\<open>b\<close> with four. Their common indent is two, so the claim
  gives \<^verbatim>\<open>b\<close> two spaces in the scalar; the code strips every line of all of its own
  indent.
\<close>

theorem literal_block_loses_relative_indent:
  "parse (''k: |'' @ [NL] @ ''  a'' @ [NL] @ ''    b'' @ [NL])
     = Inr (YamlNode Mapping Plain [] []
         [(''k'', YamlNode Scalar Literal (''a'' @ [NL] @ ''b'' @ [NL]) [] [])])"
  by (simp add: parse_eval)











section \<open>Properties of a text of one mapping line\<close>
















end
